theory Spec2Isabelle
  imports Main "HOL-Library.Sublist" "HOL-Library.Multiset"
begin

section \<open>Errors\<close>

text \<open>
  Go error values.  The four sentinels are the package variables of
  \<^verbatim>\<open>ultimate/solution.go\<close>; \<open>Cause\<close> is an error value made by a collaborator
  (\<^verbatim>\<open>errors.New(msg)\<close>); \<open>Errorf_wv w v\<close> is \<^verbatim>\<open>fmt.Errorf("%w: %v", w, v)\<close>, which wraps
  \<open>w\<close> and only prints \<open>v\<close>; \<open>Errorf_sw p e\<close> is \<^verbatim>\<open>fmt.Errorf(p + ": %w", e)\<close>, which wraps
  \<open>e\<close>; \<open>Join es\<close> is the value \<^verbatim>\<open>errors.Join\<close> builds from a non-empty list.
  A nil error is \<open>None\<close> of \<open>error option\<close>.
\<close>

datatype error =
    ErrEofCommitCookie
  | ErrNextFailed
  | ErrProcessFailed
  | ErrCommitFailed
  | Cause string
  | Errorf_wv error error
  | Errorf_sw string error
  | Join "error list"

text \<open>\<^verbatim>\<open>errors.Is\<close>: the error itself, or anything on its chain of wrapped errors.\<close>

fun errors_Is :: "error \<Rightarrow> error \<Rightarrow> bool" where
  "errors_Is (Errorf_wv w v) t = (Errorf_wv w v = t \<or> errors_Is w t)"
| "errors_Is (Errorf_sw p e) t = (Errorf_sw p e = t \<or> errors_Is e t)"
| "errors_Is (Join es) t = (Join es = t \<or> (\<exists>e \<in> set es. errors_Is e t))"
| "errors_Is e t = (e = t)"

text \<open>\<^verbatim>\<open>errors.Join\<close> on a list of non-nil errors: nil when the list is empty.\<close>

definition errors_Join :: "error list \<Rightarrow> error option" where
  "errors_Join errs = (if errs = [] then None else Some (Join errs))"

text \<open>\<^verbatim>\<open>errors.Is(err, ErrEofCommitCookie)\<close> on a possibly nil error.\<close>

definition is_eof :: "error option \<Rightarrow> bool" where
  "is_eof err = (case err of None \<Rightarrow> False | Some e \<Rightarrow> errors_Is e ErrEofCommitCookie)"

section \<open>Collaborators and the log of calls\<close>

text \<open>What one call of \<^verbatim>\<open>Producer.Next\<close> returns: items, cookie, error.\<close>

type_synonym 'a fetch = "'a list \<times> int \<times> error option"

datatype 'a batch = Batch (buf: "'a list") (cookies: "int list")

text \<open>
  The observable actions of a run, in the order they happen: the calls on the
  collaborators with what they returned, a batch sent on the batch channel, a
  cookie sent on the cookie channel.
\<close>

datatype 'a event =
    ENext "'a fetch"
  | ESeal "'a batch"
  | EProcess "'a list" "error option"
  | EEmit int
  | ECommit int "error option"

text \<open>
  The collaborators.  A producer answers its \<^verbatim>\<open>Next\<close> calls from a finite list, one
  answer per call, and signals end-of-stream on every call after the last answer.
  What \<^verbatim>\<open>Process\<close> and \<^verbatim>\<open>Commit\<close> return may depend on their argument and on the
  arguments of all their earlier calls.
\<close>

record 'a env =
  nexts :: "'a fetch list"
  process_fn :: "'a list list \<Rightarrow> 'a list \<Rightarrow> error option"
  commit_fn :: "int list \<Rightarrow> int \<Rightarrow> error option"

definition Next_call :: "'a fetch \<Rightarrow> 'a fetch list \<Rightarrow> 'a fetch \<times> 'a fetch list" where
  "Next_call eos scr = (case scr of [] \<Rightarrow> (eos, []) | r # rs \<Rightarrow> (r, rs))"

primrec fetch_of :: "'a event \<Rightarrow> 'a fetch list" where
  "fetch_of (ENext r) = [r]"
| "fetch_of (ESeal b) = []"
| "fetch_of (EProcess xs r) = []"
| "fetch_of (EEmit c) = []"
| "fetch_of (ECommit c r) = []"

primrec seal_of :: "'a event \<Rightarrow> 'a batch list" where
  "seal_of (ENext r) = []"
| "seal_of (ESeal b) = [b]"
| "seal_of (EProcess xs r) = []"
| "seal_of (EEmit c) = []"
| "seal_of (ECommit c r) = []"

primrec proc_of :: "'a event \<Rightarrow> ('a list \<times> error option) list" where
  "proc_of (ENext r) = []"
| "proc_of (ESeal b) = []"
| "proc_of (EProcess xs r) = [(xs, r)]"
| "proc_of (EEmit c) = []"
| "proc_of (ECommit c r) = []"

primrec emit_of :: "'a event \<Rightarrow> int list" where
  "emit_of (ENext r) = []"
| "emit_of (ESeal b) = []"
| "emit_of (EProcess xs r) = []"
| "emit_of (EEmit c) = [c]"
| "emit_of (ECommit c r) = []"

primrec commit_of :: "'a event \<Rightarrow> (int \<times> error option) list" where
  "commit_of (ENext r) = []"
| "commit_of (ESeal b) = []"
| "commit_of (EProcess xs r) = []"
| "commit_of (EEmit c) = []"
| "commit_of (ECommit c r) = [(c, r)]"

definition fetches :: "'a event list \<Rightarrow> 'a fetch list" where
  "fetches tr = concat (map fetch_of tr)"

definition seals :: "'a event list \<Rightarrow> 'a batch list" where
  "seals tr = concat (map seal_of tr)"

definition procs :: "'a event list \<Rightarrow> ('a list \<times> error option) list" where
  "procs tr = concat (map proc_of tr)"

definition emits :: "'a event list \<Rightarrow> int list" where
  "emits tr = concat (map emit_of tr)"

definition commits :: "'a event list \<Rightarrow> (int \<times> error option) list" where
  "commits tr = concat (map commit_of tr)"

section \<open>The sequential pipe\<close>

text \<open>
  \<^verbatim>\<open>Pipe\<close> of the sequential variant whose end-of-stream signal is the cookie \<open>-1\<close>.
  The commit loop stops at the first failing \<^verbatim>\<open>Commit\<close>.
\<close>

fun commit_loop :: "'a env \<Rightarrow> 'a event list \<Rightarrow> int list \<Rightarrow> 'a event list \<times> error option" where
  "commit_loop E tr [] = (tr, None)"
| "commit_loop E tr (ck # cks) =
     (let r = commit_fn E (map fst (commits tr)) ck; tr' = tr @ [ECommit ck r]
      in case r of
           Some e \<Rightarrow> (tr', Some (Errorf_sw ''commit error'' e))
         | None \<Rightarrow> commit_loop E tr' cks)"

text \<open>The block the source has twice: process the buffer, then commit its cookies.\<close>

definition deliver :: "'a env \<Rightarrow> 'a event list \<Rightarrow> 'a list \<Rightarrow> int list \<Rightarrow> 'a event list \<times> error option" where
  "deliver E tr bf cks =
     (let r = process_fn E (map fst (procs tr)) bf; tr' = tr @ [EProcess bf r]
      in case r of
           Some e \<Rightarrow> (tr', Some (Errorf_sw ''process error'' e))
         | None \<Rightarrow> commit_loop E tr' cks)"

definition at_eos :: "'a env \<Rightarrow> 'a event list \<Rightarrow> 'a list \<Rightarrow> int list \<Rightarrow> 'a event list \<times> error option" where
  "at_eos E tr bf cks = (if length bf > 0 then deliver E tr bf cks else (tr, None))"

fun Pipe_loop :: "'a env \<Rightarrow> int \<Rightarrow> 'a fetch list \<Rightarrow> 'a list \<Rightarrow> int list \<Rightarrow> 'a event list
    \<Rightarrow> 'a event list \<times> error option" where
  "Pipe_loop E maxItems [] bf cks tr = at_eos E (tr @ [ENext ([], - 1, None)]) bf cks"
| "Pipe_loop E maxItems ((items, cookie, err) # rest) bf cks tr =
     (let tr1 = tr @ [ENext (items, cookie, err)] in
      case err of
        Some e \<Rightarrow> (tr1, Some (Errorf_sw ''next error'' e))
      | None \<Rightarrow>
          if cookie = - 1 then at_eos E tr1 bf cks
          else if int (length bf) + int (length items) > maxItems then
            (case deliver E tr1 bf cks of
               (tr2, Some e) \<Rightarrow> (tr2, Some e)
             | (tr2, None) \<Rightarrow> Pipe_loop E maxItems rest ([] @ items) ([] @ [cookie]) tr2)
          else Pipe_loop E maxItems rest (bf @ items) (cks @ [cookie]) tr1)"

text \<open>
  \<^verbatim>\<open>make([]any, 0, maxItems)\<close> panics on a negative capacity: \<open>None\<close> is the panic,
  \<open>Some (trace, err)\<close> the calls made and the error returned.
\<close>

definition Pipe_sequential :: "'a env \<Rightarrow> int \<Rightarrow> ('a event list \<times> error option) option" where
  "Pipe_sequential E maxItems =
     (if maxItems < 0 then None else Some (Pipe_loop E maxItems (nexts E) [] [] []))"

section \<open>The concurrent pipeline\<close>

subsection \<open>State\<close>

text \<open>How a stage function ended; \<open>ret_err\<close> is the error it returned.\<close>

datatype exit_kind = Completed | Cancelled | Failed error

primrec ret_err :: "exit_kind \<Rightarrow> error option" where
  "ret_err Completed = None"
| "ret_err Cancelled = None"
| "ret_err (Failed e) = Some e"

text \<open>
  The goroutine that \<^verbatim>\<open>Pipeline.Run\<close> starts for a stage, once the stage function has
  returned: about to report the error, about to call \<^verbatim>\<open>wg.Done\<close>, finished.
\<close>

datatype tail = Ret exit_kind | Exit exit_kind | Done exit_kind

datatype 'a fetch_pc =
    F_Start
  | F_Select
  | F_SendEof
  | F_SendFull "'a list" int
  | F_After tail

datatype 'a proc_pc =
    P_Read
  | P_Got "'a batch"
  | P_Emit "int list"
  | P_After tail

datatype commit_pc =
    C_Read
  | C_Got int
  | C_After tail

datatype stage_error = StageError (Index: int) (Err: error)

datatype coord_pc =
    K_Read
  | K_Cascade stage_error int
  | K_Send stage_error
  | K_Done

datatype main_pc =
    M_Wait
  | M_Close
  | M_Collect "error list"
  | M_Ret "error option"

text \<open>
  A channel is the list of values it buffers, oldest first, and a flag that says it is
  closed; a cancellation token is a channel that carries nothing, so only its flag;
  a \<^verbatim>\<open>sync.Once\<close> is the flag that says it has run.
\<close>

record 'a state =
  script :: "'a fetch list"
  trace :: "'a event list"
  crashed :: bool
  f_pc :: "'a fetch_pc"
  f_buf :: "'a list"
  f_cookies :: "int list"
  batchCh :: "'a batch list"
  batchCh_closed :: bool
  p_pc :: "'a proc_pc"
  cookiesCh :: "int list"
  cookiesCh_closed :: bool
  c_pc :: commit_pc
  cancelChans :: "bool list"
  onceList :: "bool list"
  wg :: nat
  errCh :: "stage_error list"
  errCh_closed :: bool
  k_pc :: coord_pc
  doneErrCh :: "stage_error list"
  doneErrCh_closed :: bool
  m_pc :: main_pc

definition batchCh_cap :: nat where
  "batchCh_cap = 1"

definition cookiesCh_cap :: nat where
  "cookiesCh_cap = 256"

text \<open>
  \<^verbatim>\<open>Pipe\<close> up to the point where \<^verbatim>\<open>Run\<close> waits: three stages added, their goroutines
  and the coordinator started, the wait group at three.
\<close>

definition Pipe_init :: "'a env \<Rightarrow> 'a state" where
  "Pipe_init E =
     \<lparr> script = nexts E, trace = [], crashed = False,
       f_pc = F_Start, f_buf = [], f_cookies = [],
       batchCh = [], batchCh_closed = False,
       p_pc = P_Read,
       cookiesCh = [], cookiesCh_closed = False,
       c_pc = C_Read,
       cancelChans = [False, False, False], onceList = [False, False, False],
       wg = 3,
       errCh = [], errCh_closed = False,
       k_pc = K_Read,
       doneErrCh = [], doneErrCh_closed = False,
       m_pc = M_Wait \<rparr>"

subsection \<open>Steps\<close>

text \<open>
  In a \<^verbatim>\<open>select\<close> between a token and a data channel Go picks any ready case; the
  scheduler's pick is the \<open>choice\<close> of the step.
\<close>

datatype choice = TakeData | TakeCancel

datatype thread = T_Next | T_Process | T_Commit | T_Coord | T_Main

definition panic :: "'a state \<Rightarrow> 'a state" where
  "panic s = s\<lparr>crashed := True\<rparr>"

text \<open>Lines 75 to 80: report the stage's error, if any, then \<^verbatim>\<open>wg.Done\<close>.\<close>

definition step_tail :: "int \<Rightarrow> tail \<Rightarrow> 'a state \<Rightarrow> (tail \<times> 'a state) option" where
  "step_tail idx t s =
     (case t of
        Ret k \<Rightarrow>
          (case ret_err k of
             None \<Rightarrow> Some (Exit k, s)
           | Some e \<Rightarrow>
               if errCh_closed s then Some (Ret k, panic s)
               else if length (errCh s) < length (cancelChans s)
               then Some (Exit k, s\<lparr>errCh := errCh s @ [StageError idx e]\<rparr>)
               else None)
      | Exit k \<Rightarrow>
          if wg s = 0 then Some (Exit k, panic s)
          else Some (Done k, s\<lparr>wg := wg s - 1\<rparr>)
      | Done k \<Rightarrow> None)"

definition fetch_return :: "exit_kind \<Rightarrow> 'a state \<Rightarrow> 'a state" where
  "fetch_return k s = s\<lparr>f_pc := F_After (Ret k), batchCh_closed := True\<rparr>"

definition send_batch :: "'a state \<Rightarrow> 'a state" where
  "send_batch s =
     (let b = Batch (f_buf s) (f_cookies s)
      in s\<lparr>batchCh := batchCh s @ [b], trace := trace s @ [ESeal b]\<rparr>)"

text \<open>\<^verbatim>\<open>runNext\<close>, and the goroutine around it.\<close>

definition step_fetch :: "'a env \<Rightarrow> int \<Rightarrow> choice \<Rightarrow> 'a state \<Rightarrow> 'a state option" where
  "step_fetch E maxItems ch s =
     (case f_pc s of
        F_Start \<Rightarrow>
          if maxItems < 0 then Some (panic s)
          else Some (s\<lparr>f_pc := F_Select, f_buf := [], f_cookies := []\<rparr>)
      | F_Select \<Rightarrow>
          if cancelChans s ! 0 then Some (fetch_return Cancelled s)
          else
            (case Next_call ([], 0, Some ErrEofCommitCookie) (script s) of
               ((items, cookie, err), rest) \<Rightarrow>
                 (let s1 = s\<lparr>script := rest, trace := trace s @ [ENext (items, cookie, err)]\<rparr> in
                  if is_eof err then
                    (if length (f_buf s) > 0 then Some (s1\<lparr>f_pc := F_SendEof\<rparr>)
                     else Some (fetch_return Completed s1))
                  else
                    (case err of
                       Some e \<Rightarrow> Some (fetch_return (Failed (Errorf_wv ErrNextFailed e)) s1)
                     | None \<Rightarrow>
                         if int (length (f_buf s)) + int (length items) > maxItems
                         then Some (s1\<lparr>f_pc := F_SendFull items cookie\<rparr>)
                         else Some (s1\<lparr>f_buf := f_buf s @ items,
                                        f_cookies := f_cookies s @ [cookie]\<rparr>))))
      | F_SendEof \<Rightarrow>
          (case ch of
             TakeCancel \<Rightarrow> if cancelChans s ! 0 then Some (fetch_return Cancelled s) else None
           | TakeData \<Rightarrow>
               if length (batchCh s) < batchCh_cap
               then Some (fetch_return Completed (send_batch s))
               else None)
      | F_SendFull items cookie \<Rightarrow>
          (case ch of
             TakeCancel \<Rightarrow> if cancelChans s ! 0 then Some (fetch_return Cancelled s) else None
           | TakeData \<Rightarrow>
               if length (batchCh s) < batchCh_cap
               then Some ((send_batch s)\<lparr>f_pc := F_Select, f_buf := [] @ items,
                                          f_cookies := [] @ [cookie]\<rparr>)
               else None)
      | F_After t \<Rightarrow>
          (case step_tail 0 t s of
             None \<Rightarrow> None
           | Some (t', s') \<Rightarrow> Some (s'\<lparr>f_pc := F_After t'\<rparr>)))"

definition proc_return :: "exit_kind \<Rightarrow> 'a state \<Rightarrow> 'a state" where
  "proc_return k s = s\<lparr>p_pc := P_After (Ret k), cookiesCh_closed := True\<rparr>"

text \<open>\<^verbatim>\<open>runProcess\<close>, and the goroutine around it.\<close>

definition step_proc :: "'a env \<Rightarrow> choice \<Rightarrow> 'a state \<Rightarrow> 'a state option" where
  "step_proc E ch s =
     (case p_pc s of
        P_Read \<Rightarrow>
          (case ch of
             TakeCancel \<Rightarrow> if cancelChans s ! 1 then Some (proc_return Cancelled s) else None
           | TakeData \<Rightarrow>
               (case batchCh s of
                  b # bs \<Rightarrow> Some (s\<lparr>batchCh := bs, p_pc := P_Got b\<rparr>)
                | [] \<Rightarrow> if batchCh_closed s then Some (proc_return Completed s) else None))
      | P_Got b \<Rightarrow>
          (let r = process_fn E (map fst (procs (trace s))) (buf b);
               s1 = s\<lparr>trace := trace s @ [EProcess (buf b) r]\<rparr>
           in case r of
                Some e \<Rightarrow> Some (proc_return (Failed (Errorf_wv ErrProcessFailed e)) s1)
              | None \<Rightarrow> Some (s1\<lparr>p_pc := P_Emit (cookies b)\<rparr>))
      | P_Emit cs \<Rightarrow>
          (case cs of
             [] \<Rightarrow> Some (s\<lparr>p_pc := P_Read\<rparr>)
           | c # cs' \<Rightarrow>
               (case ch of
                  TakeCancel \<Rightarrow> if cancelChans s ! 1 then Some (proc_return Cancelled s) else None
                | TakeData \<Rightarrow>
                    if length (cookiesCh s) < cookiesCh_cap
                    then Some (s\<lparr>cookiesCh := cookiesCh s @ [c], trace := trace s @ [EEmit c],
                                 p_pc := P_Emit cs'\<rparr>)
                    else None))
      | P_After t \<Rightarrow>
          (case step_tail 1 t s of
             None \<Rightarrow> None
           | Some (t', s') \<Rightarrow> Some (s'\<lparr>p_pc := P_After t'\<rparr>)))"

definition commit_return :: "exit_kind \<Rightarrow> 'a state \<Rightarrow> 'a state" where
  "commit_return k s = s\<lparr>c_pc := C_After (Ret k)\<rparr>"

text \<open>\<^verbatim>\<open>runCommit\<close>, and the goroutine around it.\<close>

definition step_commit :: "'a env \<Rightarrow> choice \<Rightarrow> 'a state \<Rightarrow> 'a state option" where
  "step_commit E ch s =
     (case c_pc s of
        C_Read \<Rightarrow>
          (case ch of
             TakeCancel \<Rightarrow> if cancelChans s ! 2 then Some (commit_return Cancelled s) else None
           | TakeData \<Rightarrow>
               (case cookiesCh s of
                  c # cs \<Rightarrow> Some (s\<lparr>cookiesCh := cs, c_pc := C_Got c\<rparr>)
                | [] \<Rightarrow> if cookiesCh_closed s then Some (commit_return Completed s) else None))
      | C_Got c \<Rightarrow>
          (let r = commit_fn E (map fst (commits (trace s))) c;
               s1 = s\<lparr>trace := trace s @ [ECommit c r]\<rparr>
           in case r of
                Some e \<Rightarrow> Some (commit_return (Failed (Errorf_wv ErrCommitFailed e)) s1)
              | None \<Rightarrow> Some (s1\<lparr>c_pc := C_Read\<rparr>))
      | C_After t \<Rightarrow>
          (case step_tail 2 t s of
             None \<Rightarrow> None
           | Some (t', s') \<Rightarrow> Some (s'\<lparr>c_pc := C_After t'\<rparr>)))"

text \<open>
  \<^verbatim>\<open>onceList[i].Do(func() { close(pl.cancelChans[i]) })\<close>: an index out of range
  panics, and so does closing a channel that is closed.
\<close>

definition once_close :: "nat \<Rightarrow> 'a state \<Rightarrow> 'a state" where
  "once_close i s =
     (if i \<ge> length (onceList s) then panic s
      else if onceList s ! i then s
      else if i \<ge> length (cancelChans s) \<or> cancelChans s ! i
      then panic (s\<lparr>onceList := (onceList s)[i := True]\<rparr>)
      else s\<lparr>onceList := (onceList s)[i := True], cancelChans := (cancelChans s)[i := True]\<rparr>)"

text \<open>The coordinator goroutine of \<^verbatim>\<open>Pipeline.Run\<close>, lines 84 to 93.\<close>

definition step_coord :: "'a state \<Rightarrow> 'a state option" where
  "step_coord s =
     (case k_pc s of
        K_Read \<Rightarrow>
          (case errCh s of
             se # rest \<Rightarrow> Some (s\<lparr>errCh := rest, k_pc := K_Cascade se (Index se)\<rparr>)
           | [] \<Rightarrow>
               if errCh_closed s then Some (s\<lparr>doneErrCh_closed := True, k_pc := K_Done\<rparr>)
               else None)
      | K_Cascade se i \<Rightarrow>
          if i \<ge> 0 then Some ((once_close (nat i) s)\<lparr>k_pc := K_Cascade se (i - 1)\<rparr>)
          else Some (s\<lparr>k_pc := K_Send se\<rparr>)
      | K_Send se \<Rightarrow>
          if doneErrCh_closed s then Some (panic s)
          else if length (doneErrCh s) < length (cancelChans s)
          then Some (s\<lparr>doneErrCh := doneErrCh s @ [se], k_pc := K_Read\<rparr>)
          else None
      | K_Done \<Rightarrow> None)"

text \<open>\<^verbatim>\<open>Pipeline.Run\<close> from \<^verbatim>\<open>wg.Wait()\<close> on, lines 95 to 107.\<close>

definition step_main :: "'a state \<Rightarrow> 'a state option" where
  "step_main s =
     (case m_pc s of
        M_Wait \<Rightarrow> if wg s = 0 then Some (s\<lparr>m_pc := M_Close\<rparr>) else None
      | M_Close \<Rightarrow>
          if errCh_closed s then Some (panic s)
          else Some (s\<lparr>errCh_closed := True, m_pc := M_Collect []\<rparr>)
      | M_Collect errs \<Rightarrow>
          (case doneErrCh s of
             se # rest \<Rightarrow> Some (s\<lparr>doneErrCh := rest, m_pc := M_Collect (errs @ [Err se])\<rparr>)
           | [] \<Rightarrow>
               if doneErrCh_closed s
               then Some (s\<lparr>m_pc := M_Ret (if length errs > 0 then errors_Join errs else None)\<rparr>)
               else None)
      | M_Ret r \<Rightarrow> None)"

text \<open>One step of one goroutine; a program that has panicked makes no step.\<close>

definition step :: "'a env \<Rightarrow> int \<Rightarrow> thread \<times> choice \<Rightarrow> 'a state \<Rightarrow> 'a state option" where
  "step E maxItems a s =
     (if crashed s then None
      else case fst a of
             T_Next \<Rightarrow> step_fetch E maxItems (snd a) s
           | T_Process \<Rightarrow> step_proc E (snd a) s
           | T_Commit \<Rightarrow> step_commit E (snd a) s
           | T_Coord \<Rightarrow> step_coord s
           | T_Main \<Rightarrow> step_main s)"

text \<open>A schedule is the list of steps the scheduler picks; \<open>None\<close> when a pick cannot move.\<close>

fun exec :: "'a env \<Rightarrow> int \<Rightarrow> (thread \<times> choice) list \<Rightarrow> 'a state \<Rightarrow> 'a state option" where
  "exec E maxItems [] s = Some s"
| "exec E maxItems (a # as) s =
     (case step E maxItems a s of None \<Rightarrow> None | Some s' \<Rightarrow> exec E maxItems as s')"

text \<open>The states a run of \<^verbatim>\<open>Pipe(p, c, maxItems)\<close> can be in.\<close>

definition run :: "'a env \<Rightarrow> int \<Rightarrow> (thread \<times> choice) list \<Rightarrow> 'a state option" where
  "run E maxItems sched = exec E maxItems sched (Pipe_init E)"

section \<open>Invariants of the concurrent pipeline\<close>

text \<open>What is left of a stage's goroutine once its stage function has returned.\<close>

primrec f_tail :: "'a fetch_pc \<Rightarrow> tail option" where
  "f_tail F_Start = None"
| "f_tail F_Select = None"
| "f_tail F_SendEof = None"
| "f_tail (F_SendFull items cookie) = None"
| "f_tail (F_After t) = Some t"

primrec p_tail :: "'a proc_pc \<Rightarrow> tail option" where
  "p_tail P_Read = None"
| "p_tail (P_Got b) = None"
| "p_tail (P_Emit cs) = None"
| "p_tail (P_After t) = Some t"

primrec c_tail :: "commit_pc \<Rightarrow> tail option" where
  "c_tail C_Read = None"
| "c_tail (C_Got c) = None"
| "c_tail (C_After t) = Some t"

primrec exit_of :: "tail \<Rightarrow> exit_kind" where
  "exit_of (Ret k) = k"
| "exit_of (Exit k) = k"
| "exit_of (Done k) = k"

text \<open>How the stage function ended, if it has.\<close>

definition ended :: "tail option \<Rightarrow> exit_kind option" where
  "ended t = map_option exit_of t"

text \<open>A goroutine counts in the wait group until it has called \<^verbatim>\<open>wg.Done\<close>.\<close>

fun live :: "tail option \<Rightarrow> nat" where
  "live (Some (Done k)) = 0"
| "live t = 1"

text \<open>The stage error a goroutine has put on the error channel.\<close>

fun reported :: "int \<Rightarrow> tail option \<Rightarrow> stage_error list" where
  "reported i (Some (Exit (Failed e))) = [StageError i e]"
| "reported i (Some (Done (Failed e))) = [StageError i e]"
| "reported i t = []"

definition failures :: "'a state \<Rightarrow> stage_error list" where
  "failures s = reported 0 (f_tail (f_pc s)) @ reported 1 (p_tail (p_pc s))
     @ reported 2 (c_tail (c_pc s))"

text \<open>The stage error the coordinator holds between its receive and its send.\<close>

primrec holding :: "coord_pc \<Rightarrow> stage_error list" where
  "holding K_Read = []"
| "holding (K_Cascade se i) = [se]"
| "holding (K_Send se) = [se]"
| "holding K_Done = []"

text \<open>The lowest index the running cascade has still to close; \<open>-1\<close> when none runs.\<close>

primrec pending :: "coord_pc \<Rightarrow> int" where
  "pending K_Read = - 1"
| "pending (K_Cascade se i) = i"
| "pending (K_Send se) = - 1"
| "pending K_Done = - 1"

text \<open>The errors \<^verbatim>\<open>Run\<close> has collected in \<^verbatim>\<open>allErrs\<close>.\<close>

primrec collected :: "main_pc \<Rightarrow> error list" where
  "collected M_Wait = []"
| "collected M_Close = []"
| "collected (M_Collect errs) = errs"
| "collected (M_Ret r) = (case r of Some (Join errs) \<Rightarrow> errs | _ \<Rightarrow> [])"

text \<open>Channels, flags and the wait group agree with where the goroutines are.\<close>

definition inv0 :: "'a state \<Rightarrow> bool" where
  "inv0 s \<longleftrightarrow>
     \<not> crashed s \<and>
     length (cancelChans s) = 3 \<and>
     onceList s = cancelChans s \<and>
     (batchCh_closed s \<longleftrightarrow> f_tail (f_pc s) \<noteq> None) \<and>
     (cookiesCh_closed s \<longleftrightarrow> p_tail (p_pc s) \<noteq> None) \<and>
     (errCh_closed s \<longleftrightarrow> m_pc s \<noteq> M_Wait \<and> m_pc s \<noteq> M_Close) \<and>
     (doneErrCh_closed s \<longleftrightarrow> k_pc s = K_Done) \<and>
     wg s = live (f_tail (f_pc s)) + live (p_tail (p_pc s)) + live (c_tail (c_pc s)) \<and>
     (m_pc s \<noteq> M_Wait \<longrightarrow> wg s = 0) \<and>
     (k_pc s = K_Done \<longrightarrow> errCh s = [] \<and> errCh_closed s) \<and>
     length (batchCh s) \<le> batchCh_cap \<and>
     length (cookiesCh s) \<le> cookiesCh_cap \<and>
     (\<forall>se \<in> set (errCh s). Index se \<le> 2) \<and>
     (\<forall>se i. k_pc s = K_Cascade se i \<longrightarrow> i \<le> 2)"

text \<open>Every reported stage error is on its way to \<^verbatim>\<open>allErrs\<close>, or in it.\<close>

definition inv_errs :: "'a state \<Rightarrow> bool" where
  "inv_errs s \<longleftrightarrow>
     mset (map Err (errCh s @ holding (k_pc s) @ doneErrCh s)) + mset (collected (m_pc s))
       = mset (map Err (failures s)) \<and>
     set (errCh s @ holding (k_pc s) @ doneErrCh s) \<subseteq> set (failures s) \<and>
     (\<forall>r. m_pc s = M_Ret r \<longrightarrow>
        r = errors_Join (collected (m_pc s)) \<and> doneErrCh s = [] \<and> k_pc s = K_Done)"

text \<open>The tokens of the three stages with an index above \<open>lo\<close> and up to \<open>hi\<close> are closed.\<close>

definition closed_between :: "bool list \<Rightarrow> int \<Rightarrow> int \<Rightarrow> bool" where
  "closed_between cs lo hi \<longleftrightarrow>
     (lo < 0 \<and> 0 \<le> hi \<longrightarrow> cs ! 0) \<and> (lo < 1 \<and> 1 \<le> hi \<longrightarrow> cs ! 1) \<and> (lo < 2 \<and> 2 \<le> hi \<longrightarrow> cs ! 2)"

text \<open>
  The tokens: closed from the failing stage's index down; a closed token has a failed
  stage at or after it; a stage that ended cancelled has its token closed; a reported
  failure is waiting on the error channel, or in the cascade, or has all the tokens
  up to its stage closed.
\<close>

definition inv_cancel :: "'a state \<Rightarrow> bool" where
  "inv_cancel s \<longleftrightarrow>
     (\<forall>se i. k_pc s = K_Cascade se i \<longrightarrow>
        - 1 \<le> i \<and> i \<le> Index se \<and> closed_between (cancelChans s) i (Index se)) \<and>
     (cancelChans s ! 2 \<longrightarrow> cancelChans s ! 1 \<or> 1 \<le> pending (k_pc s)) \<and>
     (cancelChans s ! 1 \<longrightarrow> cancelChans s ! 0 \<or> 0 \<le> pending (k_pc s)) \<and>
     (cancelChans s ! 2 \<longrightarrow> reported 2 (c_tail (c_pc s)) \<noteq> []) \<and>
     (cancelChans s ! 1 \<longrightarrow>
        reported 1 (p_tail (p_pc s)) \<noteq> [] \<or> reported 2 (c_tail (c_pc s)) \<noteq> []) \<and>
     (cancelChans s ! 0 \<longrightarrow> failures s \<noteq> []) \<and>
     (ended (f_tail (f_pc s)) = Some Cancelled \<longrightarrow> cancelChans s ! 0) \<and>
     (ended (p_tail (p_pc s)) = Some Cancelled \<longrightarrow> cancelChans s ! 1) \<and>
     (ended (c_tail (c_pc s)) = Some Cancelled \<longrightarrow> cancelChans s ! 2) \<and>
     (\<forall>se \<in> set (failures s).
        se \<in> set (errCh s) \<or> (\<exists>i. k_pc s = K_Cascade se i) \<or>
        closed_between (cancelChans s) (- 1) (Index se))"

subsection \<open>What flows through the stages\<close>

text \<open>
  The loop body of \<^verbatim>\<open>runNext\<close> on a fetch that is neither end-of-stream nor an error,
  as a function on the batches sealed so far, the buffer and its cookies; \<open>fed\<close> runs it
  over a list of fetches from the empty buffer, and \<open>final_batches\<close> adds the batch
  that end-of-stream seals when the buffer is not empty.
\<close>

fun feed :: "int \<Rightarrow> 'a batch list \<times> 'a list \<times> int list \<Rightarrow> 'a fetch
    \<Rightarrow> 'a batch list \<times> 'a list \<times> int list" where
  "feed maxItems (sealed, bf, cks) (items, cookie, err) =
     (if int (length bf) + int (length items) > maxItems
      then (sealed @ [Batch bf cks], items, [cookie])
      else (sealed, bf @ items, cks @ [cookie]))"

definition fed :: "int \<Rightarrow> 'a fetch list \<Rightarrow> 'a batch list \<times> 'a list \<times> int list" where
  "fed maxItems rs = foldl (feed maxItems) ([], [], []) rs"

definition final_batches :: "int \<Rightarrow> 'a fetch list \<Rightarrow> 'a batch list" where
  "final_batches maxItems rs =
     (case fed maxItems rs of
        (sealed, bf, cks) \<Rightarrow> if length bf > 0 then sealed @ [Batch bf cks] else sealed)"

text \<open>A fetch with a nil error.\<close>

definition normal :: "'a fetch \<Rightarrow> bool" where
  "normal r \<longleftrightarrow> snd (snd r) = None"

text \<open>A log of calls agrees with the function that answers them from the earlier arguments.\<close>

definition calls_ok :: "('x list \<Rightarrow> 'x \<Rightarrow> error option) \<Rightarrow> ('x \<times> error option) list \<Rightarrow> bool" where
  "calls_ok f log \<longleftrightarrow>
     (\<forall>i < length log. snd (log ! i) = f (map fst (take i log)) (fst (log ! i)))"

definition all_ok :: "('x \<times> error option) list \<Rightarrow> bool" where
  "all_ok log \<longleftrightarrow> list_all (\<lambda>x. snd x = None) log"

text \<open>
  The fetch stage: the fetches \<open>fs\<close> made and the batches \<open>ss\<close> sealed so far, against
  the buffer and the place in \<^verbatim>\<open>runNext\<close>.
\<close>

fun fetch_done :: "int \<Rightarrow> 'a fetch list \<Rightarrow> 'a batch list \<Rightarrow> exit_kind \<Rightarrow> bool" where
  "fetch_done m fs ss Completed =
     (fs \<noteq> [] \<and> list_all normal (butlast fs) \<and> is_eof (snd (snd (last fs))) \<and>
      ss = final_batches m (butlast fs))"
| "fetch_done m fs ss (Failed e) =
     (fs \<noteq> [] \<and> list_all normal (butlast fs) \<and>
      (\<exists>e'. snd (snd (last fs)) = Some e' \<and> \<not> is_eof (Some e') \<and> e = Errorf_wv ErrNextFailed e') \<and>
      ss = fst (fed m (butlast fs)))"
| "fetch_done m fs ss Cancelled =
     (\<exists>rs. prefix rs fs \<and> list_all normal rs \<and> ss = fst (fed m rs))"

fun fetch_ok :: "int \<Rightarrow> 'a fetch list \<Rightarrow> 'a batch list \<Rightarrow> 'a list \<Rightarrow> int list \<Rightarrow> 'a fetch_pc \<Rightarrow> bool" where
  "fetch_ok m fs ss bf cks F_Start = (fs = [] \<and> ss = [])"
| "fetch_ok m fs ss bf cks F_Select = (list_all normal fs \<and> fed m fs = (ss, bf, cks))"
| "fetch_ok m fs ss bf cks F_SendEof =
     (fs \<noteq> [] \<and> list_all normal (butlast fs) \<and> is_eof (snd (snd (last fs))) \<and>
      fed m (butlast fs) = (ss, bf, cks) \<and> bf \<noteq> [])"
| "fetch_ok m fs ss bf cks (F_SendFull items cookie) =
     (fs \<noteq> [] \<and> list_all normal (butlast fs) \<and> last fs = (items, cookie, None) \<and>
      fed m (butlast fs) = (ss, bf, cks) \<and> int (length bf) + int (length items) > m)"
| "fetch_ok m fs ss bf cks (F_After t) = fetch_done m fs ss (exit_of t)"

definition inv_fetch :: "'a env \<Rightarrow> int \<Rightarrow> 'a state \<Rightarrow> bool" where
  "inv_fetch E m s \<longleftrightarrow>
     (fetches (trace s) @ script s = nexts E \<or>
      script s = [] \<and> fetches (trace s) = nexts E @ [([], 0, Some ErrEofCommitCookie)]) \<and>
     fetch_ok m (fetches (trace s)) (seals (trace s)) (f_buf s) (f_cookies s) (f_pc s)"

text \<open>
  The process stage: the batches \<open>ss\<close> sealed, the \<^verbatim>\<open>Process\<close> calls \<open>ps\<close> and the
  cookies \<open>es\<close> emitted so far, against the place in \<^verbatim>\<open>runProcess\<close>.
\<close>

primrec p_got :: "'a proc_pc \<Rightarrow> nat" where
  "p_got P_Read = 0"
| "p_got (P_Got b) = 1"
| "p_got (P_Emit cs) = 0"
| "p_got (P_After t) = 0"

fun proc_done :: "'a batch list \<Rightarrow> ('a list \<times> error option) list \<Rightarrow> int list \<Rightarrow> exit_kind \<Rightarrow> bool" where
  "proc_done ss ps es Completed =
     (all_ok ps \<and> length ps = length ss \<and> es = concat (map cookies ss))"
| "proc_done ss ps es (Failed e) =
     (ps \<noteq> [] \<and> all_ok (butlast ps) \<and>
      (\<exists>e'. snd (last ps) = Some e' \<and> e = Errorf_wv ErrProcessFailed e') \<and>
      es = concat (map cookies (take (length ps - 1) ss)))"
| "proc_done ss ps es Cancelled =
     (all_ok ps \<and> prefix es (concat (map cookies (take (length ps) ss))))"

fun proc_ok :: "'a batch list \<Rightarrow> ('a list \<times> error option) list \<Rightarrow> int list \<Rightarrow> 'a proc_pc \<Rightarrow> bool" where
  "proc_ok ss ps es P_Read = (all_ok ps \<and> es = concat (map cookies (take (length ps) ss)))"
| "proc_ok ss ps es (P_Got b) =
     (all_ok ps \<and> es = concat (map cookies (take (length ps) ss)) \<and> b = ss ! length ps)"
| "proc_ok ss ps es (P_Emit cs) =
     (all_ok ps \<and> es @ cs = concat (map cookies (take (length ps) ss)))"
| "proc_ok ss ps es (P_After t) = proc_done ss ps es (exit_of t)"

definition inv_proc :: "'a env \<Rightarrow> 'a state \<Rightarrow> bool" where
  "inv_proc E s \<longleftrightarrow>
     map fst (procs (trace s)) = map buf (take (length (procs (trace s))) (seals (trace s))) \<and>
     length (procs (trace s)) + p_got (p_pc s) \<le> length (seals (trace s)) \<and>
     batchCh s = drop (length (procs (trace s)) + p_got (p_pc s)) (seals (trace s)) \<and>
     calls_ok (process_fn E) (procs (trace s)) \<and>
     (ended (p_tail (p_pc s)) = Some Completed \<longrightarrow> f_tail (f_pc s) \<noteq> None) \<and>
     proc_ok (seals (trace s)) (procs (trace s)) (emits (trace s)) (p_pc s)"

text \<open>
  The commit stage: the cookies \<open>es\<close> emitted and the \<^verbatim>\<open>Commit\<close> calls \<open>cs\<close> so far,
  against the place in \<^verbatim>\<open>runCommit\<close>.
\<close>

primrec c_got :: "commit_pc \<Rightarrow> nat" where
  "c_got C_Read = 0"
| "c_got (C_Got c) = 1"
| "c_got (C_After t) = 0"

fun commit_done :: "int list \<Rightarrow> (int \<times> error option) list \<Rightarrow> exit_kind \<Rightarrow> bool" where
  "commit_done es cs Completed = (all_ok cs \<and> length cs = length es)"
| "commit_done es cs (Failed e) =
     (cs \<noteq> [] \<and> all_ok (butlast cs) \<and>
      (\<exists>e'. snd (last cs) = Some e' \<and> e = Errorf_wv ErrCommitFailed e'))"
| "commit_done es cs Cancelled = all_ok cs"

fun commit_ok :: "int list \<Rightarrow> (int \<times> error option) list \<Rightarrow> commit_pc \<Rightarrow> bool" where
  "commit_ok es cs C_Read = all_ok cs"
| "commit_ok es cs (C_Got c) = (all_ok cs \<and> c = es ! length cs)"
| "commit_ok es cs (C_After t) = commit_done es cs (exit_of t)"

definition inv_commit :: "'a env \<Rightarrow> 'a state \<Rightarrow> bool" where
  "inv_commit E s \<longleftrightarrow>
     map fst (commits (trace s)) = take (length (commits (trace s))) (emits (trace s)) \<and>
     length (commits (trace s)) + c_got (c_pc s) \<le> length (emits (trace s)) \<and>
     cookiesCh s = drop (length (commits (trace s)) + c_got (c_pc s)) (emits (trace s)) \<and>
     calls_ok (commit_fn E) (commits (trace s)) \<and>
     (ended (c_tail (c_pc s)) = Some Completed \<longrightarrow> p_tail (p_pc s) \<noteq> None) \<and>
     commit_ok (emits (trace s)) (commits (trace s)) (c_pc s)"

text \<open>All six invariants, along every schedule.\<close>

definition inv_all :: "'a env \<Rightarrow> int \<Rightarrow> 'a state \<Rightarrow> bool" where
  "inv_all E m s \<longleftrightarrow>
     inv0 s \<and> inv_errs s \<and> inv_cancel s \<and> inv_fetch E m s \<and> inv_proc E s \<and> inv_commit E s"

subsection \<open>A measure that every step decreases\<close>

primrec tail_rank :: "int \<Rightarrow> tail \<Rightarrow> nat" where
  "tail_rank i (Ret k) = 13 + nat i"
| "tail_rank i (Exit k) = 1"
| "tail_rank i (Done k) = 0"

primrec f_rank :: "'a fetch_pc \<Rightarrow> nat \<Rightarrow> nat \<Rightarrow> nat" where
  "f_rank F_Start n c = 10 * n + 30 + 3 * c"
| "f_rank F_Select n c = 10 * n + 25 + 3 * c"
| "f_rank F_SendEof n c = 20 + 3 * c"
| "f_rank (F_SendFull items cookie) n c = 10 * n + 32 + 3 * c"
| "f_rank (F_After t) n c = tail_rank 0 t"

primrec p_rank :: "'a proc_pc \<Rightarrow> nat" where
  "p_rank P_Read = 15"
| "p_rank (P_Got b) = 17 + 3 * length (cookies b)"
| "p_rank (P_Emit cs) = 16 + 3 * length cs"
| "p_rank (P_After t) = tail_rank 1 t"

primrec c_rank :: "commit_pc \<Rightarrow> nat" where
  "c_rank C_Read = 16"
| "c_rank (C_Got c) = 17"
| "c_rank (C_After t) = tail_rank 2 t"

primrec k_rank :: "coord_pc \<Rightarrow> nat" where
  "k_rank K_Read = 1"
| "k_rank (K_Cascade se i) = 6 + nat (i + 1)"
| "k_rank (K_Send se) = 4"
| "k_rank K_Done = 0"

primrec m_rank :: "main_pc \<Rightarrow> nat" where
  "m_rank M_Wait = 3"
| "m_rank M_Close = 2"
| "m_rank (M_Collect errs) = 1"
| "m_rank (M_Ret r) = 0"

definition batch_weight :: "'a batch \<Rightarrow> nat" where
  "batch_weight b = 3 + 3 * length (cookies b)"

definition se_weight :: "stage_error \<Rightarrow> nat" where
  "se_weight se = 11 + nat (Index se)"

definition mu :: "'a state \<Rightarrow> nat" where
  "mu s =
     (if crashed s then 0 else 1) +
     f_rank (f_pc s) (length (script s)) (length (f_cookies s)) +
     sum_list (map batch_weight (batchCh s)) +
     p_rank (p_pc s) + 2 * length (cookiesCh s) + c_rank (c_pc s) +
     sum_list (map se_weight (errCh s)) + k_rank (k_pc s) +
     2 * length (doneErrCh s) + m_rank (m_pc s)"

subsection \<open>Returning\<close>

text \<open>
  \<^verbatim>\<open>Pipe\<close> returns on every schedule: no schedule is longer than the measure of the
  first state, and until \<^verbatim>\<open>Run\<close> has returned some goroutine can move (so nothing
  has panicked and nothing is deadlocked).
\<close>

definition always_returns :: "'a env \<Rightarrow> int \<Rightarrow> bool" where
  "always_returns E m \<longleftrightarrow>
     (\<forall>sched s. run E m sched = Some s \<longrightarrow>
        length sched \<le> mu (Pipe_init E) \<and>
        ((\<forall>r. m_pc s \<noteq> M_Ret r) \<longrightarrow> (\<exists>a. step E m a s \<noteq> None)))"

text \<open>
  A batch the loop body builds has at most \<open>m\<close> items, or it is the items and the
  cookie of one fetch that has more than \<open>m\<close> items.
\<close>

definition within :: "int \<Rightarrow> 'a fetch list \<Rightarrow> 'a list \<Rightarrow> int list \<Rightarrow> bool" where
  "within m rs bf cks \<longleftrightarrow>
     int (length bf) \<le> m \<or>
     (\<exists>r \<in> set rs. bf = fst r \<and> cks = [fst (snd r)] \<and> int (length (fst r)) > m)"

text \<open>Once the cascade for a stage error is over, every token up to its index is closed.\<close>

definition inv_sent :: "'a state \<Rightarrow> bool" where
  "inv_sent s \<longleftrightarrow>
     (\<forall>se. k_pc s = K_Send se \<longrightarrow> closed_between (cancelChans s) (- 1) (Index se))"

section \<open>Concrete runs\<close>

text \<open>
  Capacity limit 2; the fetches return \<open>[x, y]\<close> with cookie 1 and \<open>[z]\<close> with cookie 2;
  every \<^verbatim>\<open>Process\<close> call fails.  The schedule lets the fetch stage run as far as it
  can, then the process stage, the commit stage, the coordinator and \<^verbatim>\<open>Run\<close>.
\<close>

definition process_fails :: "string env" where
  "process_fails =
     \<lparr> nexts = [([''x'', ''y''], 1, None), ([''z''], 2, None)],
       process_fn = (\<lambda>h xs. Some (Cause ''boom'')),
       commit_fn = (\<lambda>h c. None) \<rparr>"

definition process_fails_schedule :: "(thread \<times> choice) list" where
  "process_fails_schedule =
     [(T_Next, TakeData), (T_Next, TakeData), (T_Next, TakeData), (T_Next, TakeData),
      (T_Process, TakeData), (T_Next, TakeData), (T_Next, TakeData), (T_Next, TakeData),
      (T_Next, TakeData), (T_Process, TakeData), (T_Process, TakeData), (T_Process, TakeData),
      (T_Commit, TakeData), (T_Commit, TakeData), (T_Commit, TakeData),
      (T_Coord, TakeData), (T_Coord, TakeData), (T_Coord, TakeData), (T_Coord, TakeData),
      (T_Coord, TakeData), (T_Main, TakeData), (T_Main, TakeData), (T_Coord, TakeData),
      (T_Main, TakeData), (T_Main, TakeData)]"

text \<open>
  A run with two failures: \<^verbatim>\<open>Next\<close> fails on its third call, after the batch of the
  first fetch is sealed, and \<^verbatim>\<open>Process\<close> fails on that batch.  At the end of the
  schedule the coordinator has handled the failure of the fetch stage, so the token
  of index 0 is closed, and its cascade for the failure of the process stage has
  closed the token of index 1 and is at index 0.
\<close>

definition two_failures :: "string env" where
  "two_failures =
     \<lparr>nexts = [([''x''], 1, None), ([''y''], 2, None), ([], 0, Some (Cause ''net''))],
      process_fn = (\<lambda>log xs. Some (Cause ''boom'')),
      commit_fn = (\<lambda>log c. None)\<rparr>"

definition two_failures_schedule :: "(thread \<times> choice) list" where
  "two_failures_schedule =
     replicate 7 (T_Next, TakeData) @ replicate 4 (T_Coord, TakeData) @
     replicate 3 (T_Process, TakeData) @ replicate 2 (T_Coord, TakeData)"

text \<open>
  A run in which the second of three acknowledgements fails.  Capacity limit 3; the
  fetches return one item each, with the cookies 1, 2 and 3.  At the end of the
  schedule the commit stage has acknowledged cookie 1 and failed on cookie 2, with
  cookie 3 in the cookie channel; the rest of the schedule takes the run to its end.
\<close>

definition commit_fails :: "string env" where
  "commit_fails =
     \<lparr>nexts = [([''x''], 1, None), ([''y''], 2, None), ([''z''], 3, None)],
      process_fn = (\<lambda>log xs. None),
      commit_fn = (\<lambda>log c. if c = 2 then Some (Cause ''nack'') else None)\<rparr>"

definition commit_fails_schedule :: "(thread \<times> choice) list" where
  "commit_fails_schedule =
     replicate 8 (T_Next, TakeData) @ replicate 9 (T_Process, TakeData) @
     replicate 4 (T_Commit, TakeData)"

definition commit_fails_rest :: "(thread \<times> choice) list" where
  "commit_fails_rest =
     replicate 2 (T_Commit, TakeData) @ replicate 6 (T_Coord, TakeData) @
     replicate 2 (T_Main, TakeData) @ [(T_Coord, TakeData)] @ replicate 2 (T_Main, TakeData)"

text \<open>
  Three runs in which nothing fails, each to the return of \<^verbatim>\<open>Pipe\<close>: two fetches
  without items under the capacity limit 5; one fetch of three items under the
  capacity limit 2; and the fetches \<open>[x, y]\<close> and \<open>[z]\<close> under the capacity limit 2.
\<close>

definition no_items :: "string env" where
  "no_items =
     \<lparr>nexts = [([], 7, None), ([], 8, None)],
      process_fn = (\<lambda>log xs. None),
      commit_fn = (\<lambda>log c. None)\<rparr>"

definition no_items_schedule :: "(thread \<times> choice) list" where
  "no_items_schedule =
     replicate 6 (T_Next, TakeData) @ replicate 3 (T_Process, TakeData) @
     replicate 3 (T_Commit, TakeData) @ replicate 2 (T_Main, TakeData) @
     [(T_Coord, TakeData), (T_Main, TakeData)]"

definition oversize :: "string env" where
  "oversize =
     \<lparr>nexts = [([''a'', ''b'', ''c''], 1, None)],
      process_fn = (\<lambda>log xs. None),
      commit_fn = (\<lambda>log c. None)\<rparr>"

definition oversize_schedule :: "(thread \<times> choice) list" where
  "oversize_schedule =
     replicate 4 (T_Next, TakeData) @ [(T_Process, TakeData)] @
     replicate 3 (T_Next, TakeData) @ replicate 9 (T_Process, TakeData) @
     replicate 5 (T_Commit, TakeData) @ replicate 2 (T_Main, TakeData) @
     [(T_Coord, TakeData), (T_Main, TakeData)]"

definition two_batches :: "string env" where
  "two_batches =
     \<lparr>nexts = [([''x'', ''y''], 1, None), ([''z''], 2, None)],
      process_fn = (\<lambda>log xs. None),
      commit_fn = (\<lambda>log c. None)\<rparr>"

definition two_batches_schedule :: "(thread \<times> choice) list" where
  "two_batches_schedule =
     replicate 5 (T_Next, TakeData) @ [(T_Process, TakeData)] @
     replicate 3 (T_Next, TakeData) @ replicate 10 (T_Process, TakeData) @
     replicate 7 (T_Commit, TakeData) @ replicate 2 (T_Main, TakeData) @
     [(T_Coord, TakeData), (T_Main, TakeData)]"

text \<open>
  The last producer under the capacity limit 3: the second fetch fits the buffer
  exactly, and the run seals one batch.
\<close>

definition exact_fit_schedule :: "(thread \<times> choice) list" where
  "exact_fit_schedule =
     replicate 7 (T_Next, TakeData) @ replicate 8 (T_Process, TakeData) @
     replicate 7 (T_Commit, TakeData) @ replicate 2 (T_Main, TakeData) @
     [(T_Coord, TakeData), (T_Main, TakeData)]"

section \<open>The steps, case by case\<close>

lemma errors_Is_refl: "errors_Is e e"
  by (cases e) simp_all

lemma fetches_simps [simp]:
  "fetches [] = []" "fetches (tr @ tr') = fetches tr @ fetches tr'"
  "fetches [e] = fetch_of e"
  by (simp_all add: fetches_def)

lemma seals_simps [simp]:
  "seals [] = []" "seals (tr @ tr') = seals tr @ seals tr'"
  "seals [e] = seal_of e"
  by (simp_all add: seals_def)

lemma procs_simps [simp]:
  "procs [] = []" "procs (tr @ tr') = procs tr @ procs tr'"
  "procs [e] = proc_of e"
  by (simp_all add: procs_def)

lemma emits_simps [simp]:
  "emits [] = []" "emits (tr @ tr') = emits tr @ emits tr'"
  "emits [e] = emit_of e"
  by (simp_all add: emits_def)

lemma commits_simps [simp]:
  "commits [] = []" "commits (tr @ tr') = commits tr @ commits tr'"
  "commits [e] = commit_of e"
  by (simp_all add: commits_def)


lemma step_tailE [consumes 1, case_names Skip Report_panic Report Done_panic WgDone]:
  assumes "step_tail idx t s = Some (t', s')"
  obtains
    (Skip) k where "t = Ret k" "ret_err k = None" "t' = Exit k" "s' = s"
  | (Report_panic) k e where "t = Ret k" "k = Failed e" "errCh_closed s" "t' = Ret k"
      "s' = s\<lparr>crashed := True\<rparr>"
  | (Report) k e where "t = Ret k" "k = Failed e" "\<not> errCh_closed s"
      "length (errCh s) < length (cancelChans s)" "t' = Exit k"
      "s' = s\<lparr>errCh := errCh s @ [StageError idx e]\<rparr>"
  | (Done_panic) k where "t = Exit k" "wg s = 0" "t' = Exit k" "s' = s\<lparr>crashed := True\<rparr>"
  | (WgDone) k where "t = Exit k" "wg s \<noteq> 0" "t' = Done k" "s' = s\<lparr>wg := wg s - 1\<rparr>"
  using assms
  by (cases t; cases "case t of Ret k \<Rightarrow> k | Exit k \<Rightarrow> k | Done k \<Rightarrow> k")
     (auto simp: step_tail_def panic_def split: if_splits)

lemma step_fetchE [consumes 1, case_names Start_panic Start Select_cancel Eof_send Eof_done Fail
    Overflow Append SendEof_cancel SendEof SendFull_cancel SendFull Tail]:
  assumes "step_fetch E m ch s = Some s'"
  obtains
    (Start_panic) "f_pc s = F_Start" "m < 0" "s' = s\<lparr>crashed := True\<rparr>"
  | (Start) "f_pc s = F_Start" "0 \<le> m" "s' = s\<lparr>f_pc := F_Select, f_buf := [], f_cookies := []\<rparr>"
  | (Select_cancel) "f_pc s = F_Select" "cancelChans s ! 0"
      "s' = s\<lparr>f_pc := F_After (Ret Cancelled), batchCh_closed := True\<rparr>"
  | (Eof_send) items cookie err rest where "f_pc s = F_Select" "\<not> cancelChans s ! 0"
      "Next_call ([], 0, Some ErrEofCommitCookie) (script s) = ((items, cookie, err), rest)"
      "is_eof err" "f_buf s \<noteq> []"
      "s' = s\<lparr>script := rest, trace := trace s @ [ENext (items, cookie, err)], f_pc := F_SendEof\<rparr>"
  | (Eof_done) items cookie err rest where "f_pc s = F_Select" "\<not> cancelChans s ! 0"
      "Next_call ([], 0, Some ErrEofCommitCookie) (script s) = ((items, cookie, err), rest)"
      "is_eof err" "f_buf s = []"
      "s' = s\<lparr>script := rest, trace := trace s @ [ENext (items, cookie, err)],
               f_pc := F_After (Ret Completed), batchCh_closed := True\<rparr>"
  | (Fail) items cookie e rest where "f_pc s = F_Select" "\<not> cancelChans s ! 0"
      "Next_call ([], 0, Some ErrEofCommitCookie) (script s) = ((items, cookie, Some e), rest)"
      "\<not> is_eof (Some e)"
      "s' = s\<lparr>script := rest, trace := trace s @ [ENext (items, cookie, Some e)],
               f_pc := F_After (Ret (Failed (Errorf_wv ErrNextFailed e))), batchCh_closed := True\<rparr>"
  | (Overflow) items cookie rest where "f_pc s = F_Select" "\<not> cancelChans s ! 0"
      "Next_call ([], 0, Some ErrEofCommitCookie) (script s) = ((items, cookie, None), rest)"
      "int (length (f_buf s)) + int (length items) > m"
      "s' = s\<lparr>script := rest, trace := trace s @ [ENext (items, cookie, None)],
               f_pc := F_SendFull items cookie\<rparr>"
  | (Append) items cookie rest where "f_pc s = F_Select" "\<not> cancelChans s ! 0"
      "Next_call ([], 0, Some ErrEofCommitCookie) (script s) = ((items, cookie, None), rest)"
      "\<not> int (length (f_buf s)) + int (length items) > m"
      "s' = s\<lparr>script := rest, trace := trace s @ [ENext (items, cookie, None)],
               f_buf := f_buf s @ items, f_cookies := f_cookies s @ [cookie]\<rparr>"
  | (SendEof_cancel) "f_pc s = F_SendEof" "ch = TakeCancel" "cancelChans s ! 0"
      "s' = s\<lparr>f_pc := F_After (Ret Cancelled), batchCh_closed := True\<rparr>"
  | (SendEof) "f_pc s = F_SendEof" "ch = TakeData" "length (batchCh s) < batchCh_cap"
      "s' = s\<lparr>batchCh := batchCh s @ [Batch (f_buf s) (f_cookies s)],
               trace := trace s @ [ESeal (Batch (f_buf s) (f_cookies s))],
               f_pc := F_After (Ret Completed), batchCh_closed := True\<rparr>"
  | (SendFull_cancel) items cookie where "f_pc s = F_SendFull items cookie" "ch = TakeCancel"
      "cancelChans s ! 0"
      "s' = s\<lparr>f_pc := F_After (Ret Cancelled), batchCh_closed := True\<rparr>"
  | (SendFull) items cookie where "f_pc s = F_SendFull items cookie" "ch = TakeData"
      "length (batchCh s) < batchCh_cap"
      "s' = s\<lparr>batchCh := batchCh s @ [Batch (f_buf s) (f_cookies s)],
               trace := trace s @ [ESeal (Batch (f_buf s) (f_cookies s))],
               f_pc := F_Select, f_buf := items, f_cookies := [cookie]\<rparr>"
  | (Tail) t t' s1 where "f_pc s = F_After t" "step_tail 0 t s = Some (t', s1)"
      "s' = s1\<lparr>f_pc := F_After t'\<rparr>"
proof (cases "f_pc s")
  case F_Start
  then show ?thesis using assms Start_panic Start
    by (auto simp: step_fetch_def panic_def split: if_splits)
next
  case F_Select
  obtain items cookie err rest where
    n: "Next_call ([], 0, Some ErrEofCommitCookie) (script s) = ((items, cookie, err), rest)"
    by (cases "Next_call ([], 0, Some ErrEofCommitCookie) (script s)") auto
  show ?thesis
  proof (cases "cancelChans s ! 0")
    case True
    then show ?thesis using assms F_Select Select_cancel
      by (auto simp: step_fetch_def fetch_return_def)
  next
    case False
    then show ?thesis 
      using assms F_Select n Eof_send[OF F_Select False n] Eof_done[OF F_Select False n]
        Fail[OF F_Select False] Overflow[OF F_Select False] Append[OF F_Select False]
      by (cases err) (auto simp: step_fetch_def fetch_return_def Let_def split: if_splits)
  qed
next
  case F_SendEof
  then show ?thesis using assms SendEof_cancel SendEof
    by (cases ch) (auto simp: step_fetch_def fetch_return_def send_batch_def Let_def split: if_splits)
next
  case (F_SendFull items cookie)
  then show ?thesis using assms SendFull_cancel SendFull
    by (cases ch) (auto simp: step_fetch_def fetch_return_def send_batch_def Let_def split: if_splits)
next
  case (F_After t)
  then show ?thesis using assms Tail
    by (auto simp: step_fetch_def split: option.splits)
qed

lemma step_procE [consumes 1, case_names Read_cancel Read Read_closed Process_fail Process_ok
    Emit_end Emit_cancel Emit Tail]:
  assumes "step_proc E ch s = Some s'"
  obtains
    (Read_cancel) "p_pc s = P_Read" "ch = TakeCancel" "cancelChans s ! 1"
      "s' = s\<lparr>p_pc := P_After (Ret Cancelled), cookiesCh_closed := True\<rparr>"
  | (Read) b bs where "p_pc s = P_Read" "ch = TakeData" "batchCh s = b # bs"
      "s' = s\<lparr>batchCh := bs, p_pc := P_Got b\<rparr>"
  | (Read_closed) "p_pc s = P_Read" "ch = TakeData" "batchCh s = []" "batchCh_closed s"
      "s' = s\<lparr>p_pc := P_After (Ret Completed), cookiesCh_closed := True\<rparr>"
  | (Process_fail) b e where "p_pc s = P_Got b"
      "process_fn E (map fst (procs (trace s))) (buf b) = Some e"
      "s' = s\<lparr>trace := trace s @ [EProcess (buf b) (Some e)],
               p_pc := P_After (Ret (Failed (Errorf_wv ErrProcessFailed e))),
               cookiesCh_closed := True\<rparr>"
  | (Process_ok) b where "p_pc s = P_Got b"
      "process_fn E (map fst (procs (trace s))) (buf b) = None"
      "s' = s\<lparr>trace := trace s @ [EProcess (buf b) None], p_pc := P_Emit (cookies b)\<rparr>"
  | (Emit_end) "p_pc s = P_Emit []" "s' = s\<lparr>p_pc := P_Read\<rparr>"
  | (Emit_cancel) c cs where "p_pc s = P_Emit (c # cs)" "ch = TakeCancel" "cancelChans s ! 1"
      "s' = s\<lparr>p_pc := P_After (Ret Cancelled), cookiesCh_closed := True\<rparr>"
  | (Emit) c cs where "p_pc s = P_Emit (c # cs)" "ch = TakeData"
      "length (cookiesCh s) < cookiesCh_cap"
      "s' = s\<lparr>cookiesCh := cookiesCh s @ [c], trace := trace s @ [EEmit c], p_pc := P_Emit cs\<rparr>"
  | (Tail) t t' s1 where "p_pc s = P_After t" "step_tail 1 t s = Some (t', s1)"
      "s' = s1\<lparr>p_pc := P_After t'\<rparr>"
proof (cases "p_pc s")
  case P_Read
  with assms have
    "(ch = TakeCancel \<and> cancelChans s ! 1 \<and>
        s' = s\<lparr>p_pc := P_After (Ret Cancelled), cookiesCh_closed := True\<rparr>)
     \<or> (\<exists>b bs. ch = TakeData \<and> batchCh s = b # bs \<and> s' = s\<lparr>batchCh := bs, p_pc := P_Got b\<rparr>)
     \<or> (ch = TakeData \<and> batchCh s = [] \<and> batchCh_closed s \<and>
        s' = s\<lparr>p_pc := P_After (Ret Completed), cookiesCh_closed := True\<rparr>)"
    by (cases ch; cases "batchCh s") (auto simp: step_proc_def proc_return_def split: if_splits)
  then show ?thesis using Read_cancel Read Read_closed P_Read by blast
next
  case (P_Got b)
  with assms have
    "(\<exists>e. process_fn E (map fst (procs (trace s))) (buf b) = Some e \<and>
        s' = s\<lparr>trace := trace s @ [EProcess (buf b) (Some e)],
               p_pc := P_After (Ret (Failed (Errorf_wv ErrProcessFailed e))),
               cookiesCh_closed := True\<rparr>)
     \<or> (process_fn E (map fst (procs (trace s))) (buf b) = None \<and>
        s' = s\<lparr>trace := trace s @ [EProcess (buf b) None], p_pc := P_Emit (cookies b)\<rparr>)"
    by (cases "process_fn E (map fst (procs (trace s))) (buf b)")
       (auto simp: step_proc_def proc_return_def Let_def)
  then show ?thesis using Process_fail Process_ok P_Got by blast
next
  case (P_Emit cs)
  with assms have
    "(cs = [] \<and> s' = s\<lparr>p_pc := P_Read\<rparr>)
     \<or> (\<exists>c cs'. cs = c # cs' \<and> ch = TakeCancel \<and> cancelChans s ! 1 \<and>
        s' = s\<lparr>p_pc := P_After (Ret Cancelled), cookiesCh_closed := True\<rparr>)
     \<or> (\<exists>c cs'. cs = c # cs' \<and> ch = TakeData \<and> length (cookiesCh s) < cookiesCh_cap \<and>
        s' = s\<lparr>cookiesCh := cookiesCh s @ [c], trace := trace s @ [EEmit c], p_pc := P_Emit cs'\<rparr>)"
    by (cases ch; cases cs) (auto simp: step_proc_def proc_return_def split: if_splits)
  then show ?thesis using Emit_end Emit_cancel Emit P_Emit by blast
next
  case (P_After t)
  with assms have "\<exists>t' s1. step_tail 1 t s = Some (t', s1) \<and> s' = s1\<lparr>p_pc := P_After t'\<rparr>"
    by (auto simp: step_proc_def split: option.splits)
  then show ?thesis using Tail P_After by blast
qed

lemma step_commitE [consumes 1, case_names Read_cancel Read Read_closed Commit_fail Commit_ok Tail]:
  assumes "step_commit E ch s = Some s'"
  obtains
    (Read_cancel) "c_pc s = C_Read" "ch = TakeCancel" "cancelChans s ! 2"
      "s' = s\<lparr>c_pc := C_After (Ret Cancelled)\<rparr>"
  | (Read) c cs where "c_pc s = C_Read" "ch = TakeData" "cookiesCh s = c # cs"
      "s' = s\<lparr>cookiesCh := cs, c_pc := C_Got c\<rparr>"
  | (Read_closed) "c_pc s = C_Read" "ch = TakeData" "cookiesCh s = []" "cookiesCh_closed s"
      "s' = s\<lparr>c_pc := C_After (Ret Completed)\<rparr>"
  | (Commit_fail) c e where "c_pc s = C_Got c"
      "commit_fn E (map fst (commits (trace s))) c = Some e"
      "s' = s\<lparr>trace := trace s @ [ECommit c (Some e)],
               c_pc := C_After (Ret (Failed (Errorf_wv ErrCommitFailed e)))\<rparr>"
  | (Commit_ok) c where "c_pc s = C_Got c"
      "commit_fn E (map fst (commits (trace s))) c = None"
      "s' = s\<lparr>trace := trace s @ [ECommit c None], c_pc := C_Read\<rparr>"
  | (Tail) t t' s1 where "c_pc s = C_After t" "step_tail 2 t s = Some (t', s1)"
      "s' = s1\<lparr>c_pc := C_After t'\<rparr>"
proof (cases "c_pc s")
  case C_Read
  with assms have
    "(ch = TakeCancel \<and> cancelChans s ! 2 \<and> s' = s\<lparr>c_pc := C_After (Ret Cancelled)\<rparr>)
     \<or> (\<exists>c cs. ch = TakeData \<and> cookiesCh s = c # cs \<and> s' = s\<lparr>cookiesCh := cs, c_pc := C_Got c\<rparr>)
     \<or> (ch = TakeData \<and> cookiesCh s = [] \<and> cookiesCh_closed s \<and>
        s' = s\<lparr>c_pc := C_After (Ret Completed)\<rparr>)"
    by (cases ch; cases "cookiesCh s")
       (auto simp: step_commit_def commit_return_def split: if_splits)
  then show ?thesis using Read_cancel Read Read_closed C_Read by blast
next
  case (C_Got c)
  with assms have
    "(\<exists>e. commit_fn E (map fst (commits (trace s))) c = Some e \<and>
        s' = s\<lparr>trace := trace s @ [ECommit c (Some e)],
               c_pc := C_After (Ret (Failed (Errorf_wv ErrCommitFailed e)))\<rparr>)
     \<or> (commit_fn E (map fst (commits (trace s))) c = None \<and>
        s' = s\<lparr>trace := trace s @ [ECommit c None], c_pc := C_Read\<rparr>)"
    by (cases "commit_fn E (map fst (commits (trace s))) c")
       (auto simp: step_commit_def commit_return_def Let_def)
  then show ?thesis using Commit_fail Commit_ok C_Got by blast
next
  case (C_After t)
  with assms have "\<exists>t' s1. step_tail 2 t s = Some (t', s1) \<and> s' = s1\<lparr>c_pc := C_After t'\<rparr>"
    by (auto simp: step_commit_def split: option.splits)
  then show ?thesis using Tail C_After by blast
qed

lemma step_coordE [consumes 1, case_names Read Read_closed Cascade Cascade_end Send_panic Send]:
  assumes "step_coord s = Some s'"
  obtains
    (Read) se rest where "k_pc s = K_Read" "errCh s = se # rest"
      "s' = s\<lparr>errCh := rest, k_pc := K_Cascade se (Index se)\<rparr>"
  | (Read_closed) "k_pc s = K_Read" "errCh s = []" "errCh_closed s"
      "s' = s\<lparr>doneErrCh_closed := True, k_pc := K_Done\<rparr>"
  | (Cascade) se i where "k_pc s = K_Cascade se i" "0 \<le> i"
      "s' = (once_close (nat i) s)\<lparr>k_pc := K_Cascade se (i - 1)\<rparr>"
  | (Cascade_end) se i where "k_pc s = K_Cascade se i" "i < 0" "s' = s\<lparr>k_pc := K_Send se\<rparr>"
  | (Send_panic) se where "k_pc s = K_Send se" "doneErrCh_closed s" "s' = s\<lparr>crashed := True\<rparr>"
  | (Send) se where "k_pc s = K_Send se" "\<not> doneErrCh_closed s"
      "length (doneErrCh s) < length (cancelChans s)"
      "s' = s\<lparr>doneErrCh := doneErrCh s @ [se], k_pc := K_Read\<rparr>"
proof (cases "k_pc s")
  case K_Read
  with assms have
    "(\<exists>se rest. errCh s = se # rest \<and> s' = s\<lparr>errCh := rest, k_pc := K_Cascade se (Index se)\<rparr>)
     \<or> (errCh s = [] \<and> errCh_closed s \<and> s' = s\<lparr>doneErrCh_closed := True, k_pc := K_Done\<rparr>)"
    by (cases "errCh s") (auto simp: step_coord_def split: if_splits)
  then show ?thesis using Read Read_closed K_Read by blast
next
  case (K_Cascade se i)
  with assms have
    "(0 \<le> i \<and> s' = (once_close (nat i) s)\<lparr>k_pc := K_Cascade se (i - 1)\<rparr>)
     \<or> (i < 0 \<and> s' = s\<lparr>k_pc := K_Send se\<rparr>)"
    by (auto simp: step_coord_def split: if_splits)
  then show ?thesis using Cascade Cascade_end K_Cascade by blast
next
  case (K_Send se)
  with assms have
    "(doneErrCh_closed s \<and> s' = s\<lparr>crashed := True\<rparr>)
     \<or> (\<not> doneErrCh_closed s \<and> length (doneErrCh s) < length (cancelChans s) \<and>
        s' = s\<lparr>doneErrCh := doneErrCh s @ [se], k_pc := K_Read\<rparr>)"
    by (auto simp: step_coord_def panic_def split: if_splits)
  then show ?thesis using Send_panic Send K_Send by blast
next
  case K_Done
  then show ?thesis using assms by (simp add: step_coord_def)
qed

lemma step_mainE [consumes 1, case_names Wait Close_panic Close Collect Return]:
  assumes "step_main s = Some s'"
  obtains
    (Wait) "m_pc s = M_Wait" "wg s = 0" "s' = s\<lparr>m_pc := M_Close\<rparr>"
  | (Close_panic) "m_pc s = M_Close" "errCh_closed s" "s' = s\<lparr>crashed := True\<rparr>"
  | (Close) "m_pc s = M_Close" "\<not> errCh_closed s"
      "s' = s\<lparr>errCh_closed := True, m_pc := M_Collect []\<rparr>"
  | (Collect) errs se rest where "m_pc s = M_Collect errs" "doneErrCh s = se # rest"
      "s' = s\<lparr>doneErrCh := rest, m_pc := M_Collect (errs @ [Err se])\<rparr>"
  | (Return) errs where "m_pc s = M_Collect errs" "doneErrCh s = []" "doneErrCh_closed s"
      "s' = s\<lparr>m_pc := M_Ret (errors_Join errs)\<rparr>"
proof (cases "m_pc s")
  case M_Wait
  with assms have "wg s = 0 \<and> s' = s\<lparr>m_pc := M_Close\<rparr>"
    by (auto simp: step_main_def split: if_splits)
  then show ?thesis using Wait M_Wait by blast
next
  case M_Close
  with assms have
    "(errCh_closed s \<and> s' = s\<lparr>crashed := True\<rparr>)
     \<or> (\<not> errCh_closed s \<and> s' = s\<lparr>errCh_closed := True, m_pc := M_Collect []\<rparr>)"
    by (auto simp: step_main_def panic_def split: if_splits)
  then show ?thesis using Close_panic Close M_Close by blast
next
  case (M_Collect errs)
  with assms have
    "(\<exists>se rest. doneErrCh s = se # rest \<and>
        s' = s\<lparr>doneErrCh := rest, m_pc := M_Collect (errs @ [Err se])\<rparr>)
     \<or> (doneErrCh s = [] \<and> doneErrCh_closed s \<and> s' = s\<lparr>m_pc := M_Ret (errors_Join errs)\<rparr>)"
    by (cases "doneErrCh s") (auto simp: step_main_def errors_Join_def split: if_splits)
  then show ?thesis using Collect Return M_Collect by blast
next
  case (M_Ret r)
  then show ?thesis using assms by (simp add: step_main_def)
qed

lemma once_close_cases [case_names Range Noop Double Close]:
  obtains
    (Range) "i \<ge> length (onceList s)" "once_close i s = s\<lparr>crashed := True\<rparr>"
  | (Noop) "i < length (onceList s)" "onceList s ! i" "once_close i s = s"
  | (Double) "i < length (onceList s)" "\<not> onceList s ! i"
      "i \<ge> length (cancelChans s) \<or> cancelChans s ! i"
      "once_close i s = s\<lparr>onceList := (onceList s)[i := True], crashed := True\<rparr>"
  | (Close) "i < length (onceList s)" "\<not> onceList s ! i" "i < length (cancelChans s)"
      "\<not> cancelChans s ! i"
      "once_close i s = s\<lparr>onceList := (onceList s)[i := True],
                            cancelChans := (cancelChans s)[i := True]\<rparr>"
proof -
  have "(i \<ge> length (onceList s) \<and> once_close i s = s\<lparr>crashed := True\<rparr>)
    \<or> (i < length (onceList s) \<and> onceList s ! i \<and> once_close i s = s)
    \<or> (i < length (onceList s) \<and> \<not> onceList s ! i \<and>
        (i \<ge> length (cancelChans s) \<or> cancelChans s ! i) \<and>
        once_close i s = s\<lparr>onceList := (onceList s)[i := True], crashed := True\<rparr>)
    \<or> (i < length (onceList s) \<and> \<not> onceList s ! i \<and> i < length (cancelChans s) \<and>
        \<not> cancelChans s ! i \<and>
        once_close i s = s\<lparr>onceList := (onceList s)[i := True],
                            cancelChans := (cancelChans s)[i := True]\<rparr>)"
    by (auto simp: once_close_def panic_def)
  then show ?thesis using Range Noop Double Close by blast
qed

section \<open>The invariants hold\<close>

lemma inv0_init: "inv0 (Pipe_init E)"
  by (simp add: inv0_def Pipe_init_def batchCh_cap_def cookiesCh_cap_def)

lemma inv_errs_init: "inv_errs (Pipe_init E)"
  by (simp add: inv_errs_def Pipe_init_def failures_def)

lemma inv_cancel_init: "inv_cancel (Pipe_init E)"
  by (simp add: inv_cancel_def Pipe_init_def failures_def ended_def)

lemma inv0_tail_f:
  assumes "inv0 s" "step_tail 0 t s = Some (t', s1)" "f_pc s = F_After t"
  shows "inv0 (s1\<lparr>f_pc := F_After t'\<rparr>)"
  using assms(2)
  by (cases rule: step_tailE) (use assms(1,3) in \<open>auto simp add: inv0_def\<close>)

lemma inv0_tail_p:
  assumes "inv0 s" "step_tail 1 t s = Some (t', s1)" "p_pc s = P_After t"
  shows "inv0 (s1\<lparr>p_pc := P_After t'\<rparr>)"
  using assms(2)
  by (cases rule: step_tailE) (use assms(1,3) in \<open>auto simp add: inv0_def\<close>)

lemma inv0_tail_c:
  assumes "inv0 s" "step_tail 2 t s = Some (t', s1)" "c_pc s = C_After t"
  shows "inv0 (s1\<lparr>c_pc := C_After t'\<rparr>)"
  using assms(2)
  by (cases rule: step_tailE) (use assms(1,3) in \<open>auto simp add: inv0_def\<close>)

lemma inv0_fetch:
  assumes "inv0 s" "0 \<le> maxItems" "step_fetch E maxItems ch s = Some s'"
  shows "inv0 s'"
  using assms(3)
proof (cases rule: step_fetchE)
  case (Tail t t' s1)
  then show ?thesis using inv0_tail_f[OF assms(1)] by simp
qed (use assms(1,2) in \<open>auto simp add: inv0_def batchCh_cap_def\<close>)

lemma inv0_proc:
  assumes "inv0 s" "step_proc E ch s = Some s'"
  shows "inv0 s'"
  using assms(2)
proof (cases rule: step_procE)
  case (Tail t t' s1)
  then show ?thesis using inv0_tail_p[OF assms(1)] by simp
qed (use assms(1) in \<open>auto simp add: inv0_def\<close>)

lemma inv0_commit:
  assumes "inv0 s" "step_commit E ch s = Some s'"
  shows "inv0 s'"
  using assms(2)
proof (cases rule: step_commitE)
  case (Tail t t' s1)
  then show ?thesis using inv0_tail_c[OF assms(1)] by simp
qed (use assms(1) in \<open>auto simp add: inv0_def\<close>)

lemma inv0_coord:
  assumes "inv0 s" "step_coord s = Some s'"
  shows "inv0 s'"
  using assms(2)
proof (cases rule: step_coordE)
  case (Cascade se i)
  show ?thesis
    by (cases "nat i" s rule: once_close_cases)
       (use Cascade assms(1) in \<open>auto simp add: inv0_def\<close>)
qed (use assms(1) in \<open>auto simp add: inv0_def\<close>)

lemma inv0_main:
  assumes "inv0 s" "step_main s = Some s'"
  shows "inv0 s'"
  using assms(2)
  by (cases rule: step_mainE) (use assms(1) in \<open>auto simp add: inv0_def\<close>)

lemma inv0_step:
  assumes "inv0 s" "0 \<le> maxItems" "step E maxItems a s = Some s'"
  shows "inv0 s'"
  using assms inv0_fetch inv0_proc inv0_commit inv0_coord inv0_main
  by (cases "fst a") (auto simp: step_def split: if_splits)

lemma reported_simps [simp]:
  "reported i (Some (Ret k)) = []"
  "ret_err k = None \<Longrightarrow> reported i (Some (Exit k)) = []"
  "ret_err k = None \<Longrightarrow> reported i (Some (Done k)) = []"
  "reported i (Some (Done k)) = reported i (Some (Exit k))"
  by (cases k; simp)+

lemma collected_Join [simp]:
  "(case errors_Join errs of None \<Rightarrow> [] | Some (Join es) \<Rightarrow> es | Some _ \<Rightarrow> []) = errs"
  by (simp add: errors_Join_def)

lemma errors_Join_None [simp]: "errors_Join errs = None \<longleftrightarrow> errs = []"
  by (simp add: errors_Join_def)

lemma inv_errs_tail_f:
  assumes "inv_errs s" "step_tail 0 t s = Some (t', s1)" "f_pc s = F_After t"
  shows "inv_errs (s1\<lparr>f_pc := F_After t'\<rparr>)"
  using assms(2)
  by (cases rule: step_tailE) (use assms(1,3) in \<open>auto simp add: inv_errs_def failures_def\<close>)

lemma inv_errs_tail_p:
  assumes "inv_errs s" "step_tail 1 t s = Some (t', s1)" "p_pc s = P_After t"
  shows "inv_errs (s1\<lparr>p_pc := P_After t'\<rparr>)"
  using assms(2)
  by (cases rule: step_tailE) (use assms(1,3) in \<open>auto simp add: inv_errs_def failures_def\<close>)

lemma inv_errs_tail_c:
  assumes "inv_errs s" "step_tail 2 t s = Some (t', s1)" "c_pc s = C_After t"
  shows "inv_errs (s1\<lparr>c_pc := C_After t'\<rparr>)"
  using assms(2)
  by (cases rule: step_tailE) (use assms(1,3) in \<open>auto simp add: inv_errs_def failures_def\<close>)

lemma inv_errs_fetch:
  assumes "inv_errs s" "step_fetch E maxItems ch s = Some s'"
  shows "inv_errs s'"
  using assms(2)
proof (cases rule: step_fetchE)
  case (Tail t t' s1)
  then show ?thesis using inv_errs_tail_f[OF assms(1)] by simp
qed (use assms(1) in \<open>auto simp add: inv_errs_def failures_def\<close>)

lemma inv_errs_proc:
  assumes "inv_errs s" "step_proc E ch s = Some s'"
  shows "inv_errs s'"
  using assms(2)
proof (cases rule: step_procE)
  case (Tail t t' s1)
  then show ?thesis using inv_errs_tail_p[OF assms(1)] by simp
qed (use assms(1) in \<open>auto simp add: inv_errs_def failures_def\<close>)

lemma inv_errs_commit:
  assumes "inv_errs s" "step_commit E ch s = Some s'"
  shows "inv_errs s'"
  using assms(2)
proof (cases rule: step_commitE)
  case (Tail t t' s1)
  then show ?thesis using inv_errs_tail_c[OF assms(1)] by simp
qed (use assms(1) in \<open>auto simp add: inv_errs_def failures_def\<close>)

lemma inv_errs_coord:
  assumes "inv_errs s" "inv0 s" "step_coord s = Some s'"
  shows "inv_errs s'"
  using assms(3)
proof (cases rule: step_coordE)
  case (Cascade se i)
  show ?thesis
    by (cases "nat i" s rule: once_close_cases)
       (use Cascade assms(1,2) in \<open>auto simp add: inv_errs_def inv0_def failures_def\<close>)
qed (use assms(1,2) in \<open>auto simp add: inv_errs_def inv0_def failures_def\<close>)

lemma inv_errs_main:
  assumes "inv_errs s" "inv0 s" "step_main s = Some s'"
  shows "inv_errs s'"
  using assms(3)
  by (cases rule: step_mainE) (use assms(1,2) in \<open>auto simp add: inv_errs_def inv0_def failures_def\<close>)

lemma reported_mem: "se \<in> set (reported i t) \<Longrightarrow> Index se = i \<and> reported i t = [se]"
  by (cases "(i, t)" rule: reported.cases) auto

lemma failures_Index:
  "se \<in> set (failures s) \<Longrightarrow> Index se = 0 \<or> Index se = 1 \<or> Index se = 2"
  by (auto simp: failures_def dest: reported_mem)

lemma failures_reported:
  "se \<in> set (failures s) \<Longrightarrow>
     (Index se = 0 \<and> reported 0 (f_tail (f_pc s)) \<noteq> []) \<or>
     (Index se = 1 \<and> reported 1 (p_tail (p_pc s)) \<noteq> []) \<or>
     (Index se = 2 \<and> reported 2 (c_tail (c_pc s)) \<noteq> [])"
  by (auto simp: failures_def dest: reported_mem)

lemma ended_simps [simp]:
  "ended None = None" "ended (Some (Ret k)) = Some k" "ended (Some (Exit k)) = Some k"
  "ended (Some (Done k)) = Some k"
  by (simp_all add: ended_def)

lemma closed_between_refl [simp]: "closed_between cs i i"
  by (auto simp: closed_between_def)

lemma inv_cancelD:
  assumes "inv_cancel s"
  shows "k_pc s = K_Cascade se i \<Longrightarrow>
            - 1 \<le> i \<and> i \<le> Index se \<and> closed_between (cancelChans s) i (Index se)"
    and "cancelChans s ! 2 \<Longrightarrow> cancelChans s ! 1 \<or> 1 \<le> pending (k_pc s)"
    and "cancelChans s ! 1 \<Longrightarrow> cancelChans s ! 0 \<or> 0 \<le> pending (k_pc s)"
    and "cancelChans s ! 2 \<Longrightarrow> reported 2 (c_tail (c_pc s)) \<noteq> []"
    and "cancelChans s ! 1 \<Longrightarrow>
           reported 1 (p_tail (p_pc s)) \<noteq> [] \<or> reported 2 (c_tail (c_pc s)) \<noteq> []"
    and "cancelChans s ! 0 \<Longrightarrow> failures s \<noteq> []"
    and "ended (f_tail (f_pc s)) = Some Cancelled \<Longrightarrow> cancelChans s ! 0"
    and "ended (p_tail (p_pc s)) = Some Cancelled \<Longrightarrow> cancelChans s ! 1"
    and "ended (c_tail (c_pc s)) = Some Cancelled \<Longrightarrow> cancelChans s ! 2"
    and "se' \<in> set (failures s) \<Longrightarrow>
           se' \<in> set (errCh s) \<or> (\<exists>i. k_pc s = K_Cascade se' i) \<or>
           closed_between (cancelChans s) (- 1) (Index se')"
  using assms unfolding inv_cancel_def by blast+

lemma inv_cancel_tail_f:
  assumes "inv_cancel s" "step_tail 0 t s = Some (t', s1)" "f_pc s = F_After t"
  shows "inv_cancel (s1\<lparr>f_pc := F_After t'\<rparr>)"
  using assms(2)
  by (cases rule: step_tailE) (use assms(1,3) in \<open>auto simp add: inv_cancel_def failures_def\<close>)

lemma inv_cancel_tail_p:
  assumes "inv_cancel s" "step_tail 1 t s = Some (t', s1)" "p_pc s = P_After t"
  shows "inv_cancel (s1\<lparr>p_pc := P_After t'\<rparr>)"
  using assms(2)
  by (cases rule: step_tailE) (use assms(1,3) in \<open>auto simp add: inv_cancel_def failures_def\<close>)

lemma inv_cancel_tail_c:
  assumes "inv_cancel s" "step_tail 2 t s = Some (t', s1)" "c_pc s = C_After t"
  shows "inv_cancel (s1\<lparr>c_pc := C_After t'\<rparr>)"
  using assms(2)
  by (cases rule: step_tailE) (use assms(1,3) in \<open>auto simp add: inv_cancel_def failures_def\<close>)

lemma inv_cancel_fetch:
  assumes "inv_cancel s" "step_fetch E maxItems ch s = Some s'"
  shows "inv_cancel s'"
  using assms(2)
proof (cases rule: step_fetchE)
  case (Tail t t' s1)
  then show ?thesis using inv_cancel_tail_f[OF assms(1)] by simp
qed (use assms(1) in \<open>auto simp add: inv_cancel_def failures_def\<close>)

lemma inv_cancel_proc:
  assumes "inv_cancel s" "step_proc E ch s = Some s'"
  shows "inv_cancel s'"
  using assms(2)
proof (cases rule: step_procE)
  case (Tail t t' s1)
  then show ?thesis using inv_cancel_tail_p[OF assms(1)] by simp
qed (use assms(1) in \<open>auto simp add: inv_cancel_def failures_def\<close>)

lemma inv_cancel_commit:
  assumes "inv_cancel s" "step_commit E ch s = Some s'"
  shows "inv_cancel s'"
  using assms(2)
proof (cases rule: step_commitE)
  case (Tail t t' s1)
  then show ?thesis using inv_cancel_tail_c[OF assms(1)] by simp
qed (use assms(1) in \<open>auto simp add: inv_cancel_def failures_def\<close>)

lemma inv_cancel_main:
  assumes "inv_cancel s" "step_main s = Some s'"
  shows "inv_cancel s'"
  using assms(2)
  by (cases rule: step_mainE) (use assms(1) in \<open>auto simp add: inv_cancel_def failures_def\<close>)

lemma inv_cancel_close:
  assumes inv: "inv_cancel s" and k: "k_pc s = K_Cascade se i" and i: "0 \<le> i" "i \<le> 2"
    and len: "length (cancelChans s) = 3" and se: "se \<in> set (failures s)"
  shows "inv_cancel (s\<lparr>onceList := ol, cancelChans := (cancelChans s)[nat i := True],
           k_pc := K_Cascade se (i - 1)\<rparr>)"
proof -
  let ?cs = "(cancelChans s)[nat i := True]"
  have f: "failures (s\<lparr>onceList := ol, cancelChans := ?cs, k_pc := K_Cascade se (i - 1)\<rparr>)
      = failures s"
    by (simp add: failures_def)
  have n: "?cs ! 0 \<longleftrightarrow> cancelChans s ! 0 \<or> i = 0"
    "?cs ! Suc 0 \<longleftrightarrow> cancelChans s ! Suc 0 \<or> i = 1"
    "?cs ! 2 \<longleftrightarrow> cancelChans s ! 2 \<or> i = 2"
    using i len by (auto simp: nth_list_update)
  have p: "i \<le> Index se" "closed_between (cancelChans s) i (Index se)"
    using inv k by (auto simp: inv_cancel_def)
  have d: "cancelChans s ! 2 \<longrightarrow> cancelChans s ! 1 \<or> 1 \<le> i"
    "cancelChans s ! 1 \<longrightarrow> cancelChans s ! 0 \<or> 0 \<le> i"
    using inv k by (auto simp: inv_cancel_def)
  have c: "cancelChans s ! 2 \<longrightarrow> reported 2 (c_tail (c_pc s)) \<noteq> []"
    "cancelChans s ! 1 \<longrightarrow>
        reported 1 (p_tail (p_pc s)) \<noteq> [] \<or> reported 2 (c_tail (c_pc s)) \<noteq> []"
    "cancelChans s ! 0 \<longrightarrow> failures s \<noteq> []"
    using inv by (auto simp: inv_cancel_def)
  have e: "ended (f_tail (f_pc s)) = Some Cancelled \<longrightarrow> cancelChans s ! 0"
    "ended (p_tail (p_pc s)) = Some Cancelled \<longrightarrow> cancelChans s ! 1"
    "ended (c_tail (c_pc s)) = Some Cancelled \<longrightarrow> cancelChans s ! 2"
    using inv by (auto simp: inv_cancel_def)
  have h: "\<forall>se' \<in> set (failures s).
        se' \<in> set (errCh s) \<or> se' = se \<or> closed_between (cancelChans s) (- 1) (Index se')"
    using inv k by (auto simp: inv_cancel_def)
  have mono: "\<And>lo hi. closed_between (cancelChans s) lo hi \<Longrightarrow> closed_between ?cs lo hi"
    using len by (auto simp: closed_between_def n)
  have g1: "- 1 \<le> i - 1 \<and> i - 1 \<le> Index se \<and> closed_between ?cs (i - 1) (Index se)"
    using p i len by (auto simp: closed_between_def n)
  have g2: "?cs ! 2 \<longrightarrow> ?cs ! 1 \<or> 1 \<le> i - 1" "?cs ! 1 \<longrightarrow> ?cs ! 0 \<or> 0 \<le> i - 1"
    using d i len by (auto simp: n)
  have g3: "?cs ! 2 \<longrightarrow> reported 2 (c_tail (c_pc s)) \<noteq> []"
    "?cs ! 1 \<longrightarrow> reported 1 (p_tail (p_pc s)) \<noteq> [] \<or> reported 2 (c_tail (c_pc s)) \<noteq> []"
    "?cs ! 0 \<longrightarrow> failures s \<noteq> []"
    using c p(1) failures_reported[OF se] se len by (auto simp: n)
  have g4: "ended (f_tail (f_pc s)) = Some Cancelled \<longrightarrow> ?cs ! 0"
    "ended (p_tail (p_pc s)) = Some Cancelled \<longrightarrow> ?cs ! 1"
    "ended (c_tail (c_pc s)) = Some Cancelled \<longrightarrow> ?cs ! 2"
    using e len by (auto simp: n)
  have g5: "\<forall>se' \<in> set (failures s).
        se' \<in> set (errCh s) \<or> se = se' \<or> closed_between ?cs (- 1) (Index se')"
    using h mono by blast
  show ?thesis
    unfolding inv_cancel_def f using g1 g2 g3 g4 g5 by simp
qed

lemma icc_read:
  assumes "inv_cancel s" "inv_errs s" "k_pc s = K_Read" "errCh s = se # rest"
      "s' = s\<lparr>errCh := rest, k_pc := K_Cascade se (Index se)\<rparr>"
  shows "inv_cancel s'"
proof -
  note d = inv_cancelD[OF assms(1)]
  have f: "failures s' = failures s" using assms(5) by (simp add: failures_def)
  have "se \<in> set (failures s)" using assms by (auto simp: inv_errs_def)
  from failures_Index[OF this] have ix: "0 \<le> Index se" by auto
  have h: "\<forall>se' \<in> set (failures s). se' \<in> set rest \<or> se = se' \<or>
      closed_between (cancelChans s) (- 1) (Index se')"
    using d(10) assms(3,4) by auto
  show ?thesis
    unfolding inv_cancel_def f using d(2-9) assms(3) ix h
    by (simp add: assms(5))
qed

lemma icc_cend:
  assumes "inv_cancel s" "k_pc s = K_Cascade se i" "i < 0" "s' = s\<lparr>k_pc := K_Send se\<rparr>"
  shows "inv_cancel s'"
proof -
  note d = inv_cancelD[OF assms(1)]
  have f: "failures s' = failures s" using assms(4) by (simp add: failures_def)
  have i: "i = - 1" using d(1)[OF assms(2)] assms(3) by linarith
  have c: "closed_between (cancelChans s) (- 1) (Index se)"
    using d(1)[OF assms(2)] i by simp
  have h: "\<forall>se' \<in> set (failures s). se' \<in> set (errCh s) \<or>
      closed_between (cancelChans s) (- 1) (Index se')"
    using d(10) assms(2) c by auto
  show ?thesis
    unfolding inv_cancel_def f using d(2-9) assms(2) i h
    by (simp add: assms(4))
qed

lemma icc_send:
  assumes "inv_cancel s" "k_pc s = K_Send se" 
      "s' = s\<lparr>doneErrCh := doneErrCh s @ [se], k_pc := K_Read\<rparr>"
  shows "inv_cancel s'"
  using assms by (auto simp add: inv_cancel_def closed_between_def failures_def)

lemma icc_casc:
  assumes "inv_cancel s" "inv0 s" "inv_errs s" and Cascade: "k_pc s = K_Cascade se i" "0 \<le> i"
      "s' = (once_close (nat i) s)\<lparr>k_pc := K_Cascade se (i - 1)\<rparr>"
  shows "inv_cancel s'"
proof -
  have se: "se \<in> set (failures s)" using assms(3) Cascade by (auto simp: inv_errs_def)
  have i: "i \<le> 2" using Cascade assms(2) by (auto simp: inv0_def)
  have l: "length (cancelChans s) = 3" "onceList s = cancelChans s"
    using assms(2) by (auto simp: inv0_def)
  note cl = inv_cancel_close[OF assms(1) Cascade(1,2) i l(1) se]
  show ?thesis
  proof (cases "nat i" s rule: once_close_cases)
    case Range
    then show ?thesis using i l by auto
  next
    case Noop
    then have "(cancelChans s)[nat i := True] = cancelChans s"
      using l by (metis list_update_id)
    then show ?thesis using Cascade Noop cl[of "onceList s"] by simp
  next
    case Double
    then show ?thesis using i l by auto
  next
    case Close
    then show ?thesis using Cascade cl[of "(onceList s)[nat i := True]"] by simp
  qed
qed

lemma inv_cancel_coord:
  assumes "inv_cancel s" "inv0 s" "inv_errs s" "step_coord s = Some s'"
  shows "inv_cancel s'"
  using assms(4)
proof (cases rule: step_coordE)
  case (Read se rest)
  then show ?thesis using icc_read[OF assms(1,3)] by simp
next
  case Read_closed
  then show ?thesis using assms(1) by (auto simp add: inv_cancel_def failures_def)
next
  case (Cascade se i)
  then show ?thesis using icc_casc[OF assms(1,2,3)] by simp
next
  case (Cascade_end se i)
  then show ?thesis using icc_cend[OF assms(1)] by simp
next
  case (Send_panic se)
  then show ?thesis using assms(2) by (auto simp add: inv0_def)
next
  case (Send se)
  then show ?thesis using icc_send[OF assms(1)] by simp
qed

text \<open>The three together, along every schedule.\<close>

lemma inv_step:
  assumes "inv0 s \<and> inv_errs s \<and> inv_cancel s" "0 \<le> maxItems" "step E maxItems a s = Some s'"
  shows "inv0 s' \<and> inv_errs s' \<and> inv_cancel s'"
proof (cases "fst a")
  case T_Next
  then show ?thesis using assms inv0_fetch inv_errs_fetch inv_cancel_fetch
    by (auto simp: step_def split: if_splits)
next
  case T_Process
  then show ?thesis using assms inv0_proc inv_errs_proc inv_cancel_proc
    by (auto simp: step_def split: if_splits)
next
  case T_Commit
  then show ?thesis using assms inv0_commit inv_errs_commit inv_cancel_commit
    by (auto simp: step_def split: if_splits)
next
  case T_Coord
  then show ?thesis using assms inv0_coord inv_errs_coord inv_cancel_coord
    by (auto simp: step_def split: if_splits)
next
  case T_Main
  then show ?thesis using assms inv0_main inv_errs_main inv_cancel_main
    by (auto simp: step_def split: if_splits)
qed

lemma exec_invariant:
  assumes "P s0" "\<And>a s s'. P s \<Longrightarrow> step E maxItems a s = Some s' \<Longrightarrow> P s'"
    "exec E maxItems sched s0 = Some s"
  shows "P s"
  using assms(1,3)
proof (induction sched arbitrary: s0)
  case Nil
  then show ?case by simp
next
  case (Cons a sched)
  from Cons.prems(2) obtain s1 where
    s1: "step E maxItems a s0 = Some s1" "exec E maxItems sched s1 = Some s"
    by (auto split: option.splits)
  from assms(2)[OF Cons.prems(1) s1(1)] have "P s1" .
  then show ?case using Cons.IH s1(2) by blast
qed

lemma run_inv:
  assumes "0 \<le> maxItems" "run E maxItems sched = Some s"
  shows "inv0 s" "inv_errs s" "inv_cancel s"
proof -
  have "inv0 s \<and> inv_errs s \<and> inv_cancel s"
    using assms(2) unfolding run_def
    by (rule exec_invariant[rotated 2])
       (use inv0_init inv_errs_init inv_cancel_init inv_step[OF _ assms(1)] in blast)+
  then show "inv0 s" "inv_errs s" "inv_cancel s" by simp_all
qed

subsection \<open>What flows through the stages\<close>

lemma fed_simps [simp]:
  "fed m [] = ([], [], [])"
  "fed m (rs @ [r]) = feed m (fed m rs) r"
  by (simp_all add: fed_def)

lemma all_ok_simps [simp]:
  "all_ok []"
  "all_ok (log @ [(x, r)]) \<longleftrightarrow> all_ok log \<and> r = None"
  by (auto simp: all_ok_def)

lemma calls_ok_Nil [simp]: "calls_ok f []"
  by (simp add: calls_ok_def)

lemma calls_ok_snoc [simp]:
  "calls_ok f (log @ [(x, r)]) \<longleftrightarrow> calls_ok f log \<and> r = f (map fst log) x"
proof -
  have "calls_ok f (log @ [(x, r)]) \<longleftrightarrow>
      (\<forall>i < Suc (length log). snd ((log @ [(x, r)]) ! i)
         = f (map fst (take i (log @ [(x, r)]))) (fst ((log @ [(x, r)]) ! i)))"
    by (simp add: calls_ok_def)
  also have "\<dots> \<longleftrightarrow> calls_ok f log \<and> r = f (map fst log) x"
    by (auto simp: calls_ok_def less_Suc_eq nth_append)
  finally show ?thesis .
qed

lemma drop_Cons_next:
  assumes "b # bs = drop n xs"
  shows "bs = drop (Suc n) xs" "xs ! n = b" "n < length xs"
proof -
  show "n < length xs" using assms by (metis drop_all list.distinct(1) not_le)
  then show "xs ! n = b" using assms by (metis Cons_nth_drop_Suc list.inject)
  show "bs = drop (Suc n) xs" using assms by (metis drop_Suc list.sel(3) tl_drop)
qed

lemma take_Suc_snoc: "n < length xs \<Longrightarrow> take (Suc n) xs = take n xs @ [xs ! n]"
  by (simp add: take_Suc_conv_app_nth)

lemma inv_fetch_init: "inv_fetch E m (Pipe_init E)"
  by (simp add: inv_fetch_def Pipe_init_def)

lemma inv_proc_init: "inv_proc E (Pipe_init E)"
  by (simp add: inv_proc_def Pipe_init_def)

lemma inv_commit_init: "inv_commit E (Pipe_init E)"
  by (simp add: inv_commit_def Pipe_init_def)

lemma inv_fetch_tail:
  assumes "inv_fetch E m s" "step_tail 0 t s = Some (t', s1)" "f_pc s = F_After t"
  shows "inv_fetch E m (s1\<lparr>f_pc := F_After t'\<rparr>)"
  using assms(2)
  by (cases rule: step_tailE) (use assms(1,3) in \<open>auto simp add: inv_fetch_def\<close>)

lemma inv_fetch_tail_p:
  assumes "inv_fetch E m s" "step_tail i t s = Some (t', s1)"
  shows "inv_fetch E m (s1\<lparr>p_pc := pc\<rparr>)"
  using assms(2)
  by (cases rule: step_tailE) (use assms(1) in \<open>auto simp add: inv_fetch_def\<close>)

lemma inv_fetch_tail_c:
  assumes "inv_fetch E m s" "step_tail i t s = Some (t', s1)"
  shows "inv_fetch E m (s1\<lparr>c_pc := pc\<rparr>)"
  using assms(2)
  by (cases rule: step_tailE) (use assms(1) in \<open>auto simp add: inv_fetch_def\<close>)

lemma inv_fetch_fetch:
  assumes "inv_fetch E m s" "step_fetch E m ch s = Some s'"
  shows "inv_fetch E m s'"
  using assms(2)
proof (cases rule: step_fetchE)
  case (Tail t t' s1)
  then show ?thesis using inv_fetch_tail[OF assms(1)] by simp
next
  case Select_cancel
  then show ?thesis using assms(1) by (auto simp add: inv_fetch_def)
next
  case SendEof_cancel
  then show ?thesis using assms(1)
    by (auto simp add: inv_fetch_def intro!: exI[of _ "butlast (fetches (trace s))"] prefixeq_butlast)
next
  case (SendFull_cancel items cookie)
  then show ?thesis using assms(1)
    by (auto simp add: inv_fetch_def intro!: exI[of _ "butlast (fetches (trace s))"] prefixeq_butlast)
next
  case (SendFull items cookie)
  then show ?thesis using assms(1)
    by (cases "fetches (trace s)" rule: rev_cases) (auto simp add: inv_fetch_def normal_def)
qed (use assms(1) in \<open>auto simp add: inv_fetch_def Next_call_def normal_def final_batches_def is_eof_def
      split: list.splits if_splits\<close>)

lemma inv_fetch_proc:
  assumes "inv_fetch E m s" "step_proc E ch s = Some s'"
  shows "inv_fetch E m s'"
  using assms(2)
proof (cases rule: step_procE)
  case (Tail t t' s1)
  then show ?thesis using inv_fetch_tail_p[OF assms(1)] by simp
qed (use assms(1) in \<open>auto simp add: inv_fetch_def\<close>)

lemma inv_fetch_commit:
  assumes "inv_fetch E m s" "step_commit E ch s = Some s'"
  shows "inv_fetch E m s'"
  using assms(2)
proof (cases rule: step_commitE)
  case (Tail t t' s1)
  then show ?thesis using inv_fetch_tail_c[OF assms(1)] by simp
qed (use assms(1) in \<open>auto simp add: inv_fetch_def\<close>)

lemma inv_fetch_coord:
  assumes "inv_fetch E m s" "step_coord s = Some s'"
  shows "inv_fetch E m s'"
  using assms(2)
proof (cases rule: step_coordE)
  case (Cascade se i)
  show ?thesis
    by (cases "nat i" s rule: once_close_cases)
       (use Cascade assms(1) in \<open>auto simp add: inv_fetch_def\<close>)
qed (use assms(1) in \<open>auto simp add: inv_fetch_def\<close>)

lemma inv_fetch_main:
  assumes "inv_fetch E m s" "step_main s = Some s'"
  shows "inv_fetch E m s'"
  using assms(2)
  by (cases rule: step_mainE) (use assms(1) in \<open>auto simp add: inv_fetch_def\<close>)
lemma inv_proc_tail_f:
  assumes "inv_proc E s" "step_tail 0 t s = Some (t', s1)" "f_pc s = F_After t"
  shows "inv_proc E (s1\<lparr>f_pc := F_After t'\<rparr>)"
  using assms(2)
  by (cases rule: step_tailE) (use assms(1,3) in \<open>auto simp add: inv_proc_def\<close>)

lemma inv_proc_tail_p:
  assumes "inv_proc E s" "step_tail 1 t s = Some (t', s1)" "p_pc s = P_After t"
  shows "inv_proc E (s1\<lparr>p_pc := P_After t'\<rparr>)"
  using assms(2)
  by (cases rule: step_tailE) (use assms(1,3) in \<open>auto simp add: inv_proc_def\<close>)

lemma inv_proc_tail_c:
  assumes "inv_proc E s" "step_tail i t s = Some (t', s1)"
  shows "inv_proc E (s1\<lparr>c_pc := pc\<rparr>)"
  using assms(2)
  by (cases rule: step_tailE) (use assms(1) in \<open>auto simp add: inv_proc_def\<close>)

lemma proc_ok_seal:
  assumes "proc_ok ss ps es pc" "length ps + p_got pc \<le> length ss"
    "ended (p_tail pc) \<noteq> Some Completed"
  shows "proc_ok (ss @ [b]) ps es pc"
proof (cases pc)
  case (P_After t)
  then show ?thesis using assms by (cases "exit_of t") (auto simp: nth_append ended_def)
qed (use assms in \<open>auto simp: nth_append\<close>)

lemma inv_proc_seal:
  assumes "inv_proc E s" "f_tail (f_pc s) = None"
  shows "inv_proc E (s\<lparr>batchCh := batchCh s @ [b], trace := trace s @ [ESeal b], f_pc := pc,
     f_buf := bf, f_cookies := cks, batchCh_closed := cl\<rparr>)"
  using assms proc_ok_seal[of "seals (trace s)" "procs (trace s)" "emits (trace s)" "p_pc s" b]
  by (auto simp: inv_proc_def)

lemma inv_proc_fetch:
  assumes "inv_proc E s" "step_fetch E m ch s = Some s'"
  shows "inv_proc E s'"
  using assms(2)
proof (cases rule: step_fetchE)
  case (Tail t t' s1)
  then show ?thesis using inv_proc_tail_f[OF assms(1)] by simp
next
  case SendEof
  then show ?thesis
    using inv_proc_seal[OF assms(1), where b = "Batch (f_buf s) (f_cookies s)"
      and pc = "F_After (Ret Completed)" and bf = "f_buf s" and cks = "f_cookies s" and cl = True]
    by simp
next
  case (SendFull items cookie)
  then show ?thesis
    using inv_proc_seal[OF assms(1), where b = "Batch (f_buf s) (f_cookies s)"
      and pc = "F_Select" and bf = items and cks = "[cookie]" and cl = "batchCh_closed s"]
    by simp
qed (use assms(1) in \<open>auto simp add: inv_proc_def\<close>)

lemma inv_proc_proc:
  assumes "inv_proc E s" "inv0 s" "step_proc E ch s = Some s'"
  shows "inv_proc E s'"
  using assms(3)
proof (cases rule: step_procE)
  case (Tail t t' s1)
  then show ?thesis using inv_proc_tail_p[OF assms(1)] by simp
next
  case (Read b bs)
  then show ?thesis using assms(1) drop_Cons_next[of b bs "length (procs (trace s))" "seals (trace s)"]
    by (auto simp add: inv_proc_def)
next
  case Read_closed
  then show ?thesis using assms(1,2) by (auto simp add: inv_proc_def inv0_def)
next
  case (Process_fail b e)
  then show ?thesis using assms(1)
    by (auto simp add: inv_proc_def take_Suc_snoc)
next
  case (Process_ok b)
  then show ?thesis using assms(1)
    by (auto simp add: inv_proc_def take_Suc_snoc)
next
  case (Emit_cancel c cs)
  then have "prefix (emits (trace s))
      (concat (map cookies (take (length (procs (trace s))) (seals (trace s)))))"
    using assms(1) by (auto simp add: inv_proc_def intro: prefixI[OF sym])
  then show ?thesis using Emit_cancel assms(1) by (auto simp add: inv_proc_def)
qed (use assms(1) in \<open>auto simp add: inv_proc_def\<close>)

lemma inv_proc_commit:
  assumes "inv_proc E s" "step_commit E ch s = Some s'"
  shows "inv_proc E s'"
  using assms(2)
proof (cases rule: step_commitE)
  case (Tail t t' s1)
  then show ?thesis using inv_proc_tail_c[OF assms(1)] by simp
qed (use assms(1) in \<open>auto simp add: inv_proc_def\<close>)

lemma inv_proc_coord:
  assumes "inv_proc E s" "step_coord s = Some s'"
  shows "inv_proc E s'"
  using assms(2)
proof (cases rule: step_coordE)
  case (Cascade se i)
  show ?thesis
    by (cases "nat i" s rule: once_close_cases)
       (use Cascade assms(1) in \<open>auto simp add: inv_proc_def\<close>)
qed (use assms(1) in \<open>auto simp add: inv_proc_def\<close>)

lemma inv_proc_main:
  assumes "inv_proc E s" "step_main s = Some s'"
  shows "inv_proc E s'"
  using assms(2)
  by (cases rule: step_mainE) (use assms(1) in \<open>auto simp add: inv_proc_def\<close>)
lemma inv_commit_tail_f:
  assumes "inv_commit E s" "step_tail i t s = Some (t', s1)"
  shows "inv_commit E (s1\<lparr>f_pc := pc\<rparr>)"
  using assms(2)
  by (cases rule: step_tailE) (use assms(1) in \<open>auto simp add: inv_commit_def\<close>)

lemma inv_commit_tail_p:
  assumes "inv_commit E s" "step_tail 1 t s = Some (t', s1)" "p_pc s = P_After t"
  shows "inv_commit E (s1\<lparr>p_pc := P_After t'\<rparr>)"
  using assms(2)
  by (cases rule: step_tailE) (use assms(1,3) in \<open>auto simp add: inv_commit_def\<close>)

lemma inv_commit_tail_c:
  assumes "inv_commit E s" "step_tail 2 t s = Some (t', s1)" "c_pc s = C_After t"
  shows "inv_commit E (s1\<lparr>c_pc := C_After t'\<rparr>)"
  using assms(2)
  by (cases rule: step_tailE) (use assms(1,3) in \<open>auto simp add: inv_commit_def\<close>)

lemma commit_ok_emit:
  assumes "commit_ok es cs pc" "length cs + c_got pc \<le> length es"
    "ended (c_tail pc) \<noteq> Some Completed"
  shows "commit_ok (es @ [c]) cs pc"
proof (cases pc)
  case (C_After t)
  then show ?thesis using assms by (cases "exit_of t") (auto simp: nth_append ended_def)
qed (use assms in \<open>auto simp: nth_append\<close>)

lemma inv_commit_fetch:
  assumes "inv_commit E s" "step_fetch E m ch s = Some s'"
  shows "inv_commit E s'"
  using assms(2)
proof (cases rule: step_fetchE)
  case (Tail t t' s1)
  then show ?thesis using inv_commit_tail_f[OF assms(1)] by simp
qed (use assms(1) in \<open>auto simp add: inv_commit_def\<close>)

lemma inv_commit_proc:
  assumes "inv_commit E s" "step_proc E ch s = Some s'"
  shows "inv_commit E s'"
  using assms(2)
proof (cases rule: step_procE)
  case (Tail t t' s1)
  then show ?thesis using inv_commit_tail_p[OF assms(1)] by simp
next
  case (Emit c cs)
  then show ?thesis
    using assms(1) commit_ok_emit[of "emits (trace s)" "commits (trace s)" "c_pc s" c]
    by (auto simp add: inv_commit_def)
qed (use assms(1) in \<open>auto simp add: inv_commit_def\<close>)

lemma inv_commit_commit:
  assumes "inv_commit E s" "inv0 s" "step_commit E ch s = Some s'"
  shows "inv_commit E s'"
  using assms(3)
proof (cases rule: step_commitE)
  case (Tail t t' s1)
  then show ?thesis using inv_commit_tail_c[OF assms(1)] by simp
next
  case (Read c cs)
  then show ?thesis
    using assms(1) drop_Cons_next[of c cs "length (commits (trace s))" "emits (trace s)"]
    by (auto simp add: inv_commit_def)
next
  case Read_closed
  then show ?thesis using assms(1,2) by (auto simp add: inv_commit_def inv0_def)
next
  case (Commit_fail c e)
  then show ?thesis using assms(1)
    by (auto simp add: inv_commit_def take_Suc_snoc)
next
  case (Commit_ok c)
  then show ?thesis using assms(1)
    by (auto simp add: inv_commit_def take_Suc_snoc)
qed (use assms(1) in \<open>auto simp add: inv_commit_def\<close>)

lemma inv_commit_coord:
  assumes "inv_commit E s" "step_coord s = Some s'"
  shows "inv_commit E s'"
  using assms(2)
proof (cases rule: step_coordE)
  case (Cascade se i)
  show ?thesis
    by (cases "nat i" s rule: once_close_cases)
       (use Cascade assms(1) in \<open>auto simp add: inv_commit_def\<close>)
qed (use assms(1) in \<open>auto simp add: inv_commit_def\<close>)

lemma inv_commit_main:
  assumes "inv_commit E s" "step_main s = Some s'"
  shows "inv_commit E s'"
  using assms(2)
  by (cases rule: step_mainE) (use assms(1) in \<open>auto simp add: inv_commit_def\<close>)

lemma inv_all_step:
  assumes "inv_all E m s" "0 \<le> m" "step E m a s = Some s'"
  shows "inv_all E m s'"
proof -
  from assms(1) have i: "inv0 s" "inv_errs s" "inv_cancel s" "inv_fetch E m s" "inv_proc E s"
    "inv_commit E s"
    by (simp_all add: inv_all_def)
  have b: "inv0 s' \<and> inv_errs s' \<and> inv_cancel s'"
    using inv_step[OF _ assms(2,3)] i by simp
  have d: "inv_fetch E m s' \<and> inv_proc E s' \<and> inv_commit E s'"
  proof (cases "fst a")
    case T_Next
    then show ?thesis using assms(3) i inv_fetch_fetch inv_proc_fetch inv_commit_fetch
      by (auto simp: step_def split: if_splits)
  next
    case T_Process
    then show ?thesis using assms(3) i inv_fetch_proc inv_proc_proc inv_commit_proc
      by (auto simp: step_def split: if_splits)
  next
    case T_Commit
    then show ?thesis using assms(3) i inv_fetch_commit inv_proc_commit inv_commit_commit
      by (auto simp: step_def split: if_splits)
  next
    case T_Coord
    then show ?thesis using assms(3) i inv_fetch_coord inv_proc_coord inv_commit_coord
      by (auto simp: step_def split: if_splits)
  next
    case T_Main
    then show ?thesis using assms(3) i inv_fetch_main inv_proc_main inv_commit_main
      by (auto simp: step_def split: if_splits)
  qed
  show ?thesis using b d by (simp add: inv_all_def)
qed

lemma run_inv_all:
  assumes "0 \<le> m" "run E m sched = Some s"
  shows "inv_all E m s"
  using assms(2) unfolding run_def
proof (rule exec_invariant[rotated 2])
  show "inv_all E m (Pipe_init E)"
    by (simp add: inv_all_def inv0_init inv_errs_init inv_cancel_init inv_fetch_init
        inv_proc_init inv_commit_init)
qed (rule inv_all_step[OF _ assms(1)])

section \<open>Termination and deadlock freedom\<close>

lemma mu_tail:
  assumes "step_tail idx t s = Some (t', s1)" "\<not> crashed s" "0 \<le> idx"
  shows "tail_rank idx t' + sum_list (map se_weight (errCh s1)) + (if crashed s1 then 0 else 1)
         < tail_rank idx t + sum_list (map se_weight (errCh s)) + 1"
  using assms(1)
  by (cases rule: step_tailE) (use assms(2,3) in \<open>auto simp: se_weight_def\<close>)

lemma mu_tail_frame:
  assumes "step_tail idx t s = Some (t', s1)"
  shows "script s1 = script s" "f_cookies s1 = f_cookies s" "batchCh s1 = batchCh s"
    "cookiesCh s1 = cookiesCh s" "doneErrCh s1 = doneErrCh s" "k_pc s1 = k_pc s" "m_pc s1 = m_pc s"
    "f_pc s1 = f_pc s" "p_pc s1 = p_pc s" "c_pc s1 = c_pc s"
  using assms by (cases rule: step_tailE; simp)+

lemma mu_fetch:
  assumes "step_fetch E m ch s = Some s'" "\<not> crashed s"
  shows "mu s' < mu s"
  using assms(1)
proof (cases rule: step_fetchE)
  case (Tail t t' s1)
  then show ?thesis using mu_tail[OF Tail(2) assms(2)] mu_tail_frame[OF Tail(2)] assms(2)
    by (simp add: mu_def)
qed (use assms(2) in \<open>auto simp: mu_def Next_call_def batch_weight_def split: list.splits\<close>)

lemma mu_proc:
  assumes "step_proc E ch s = Some s'" "\<not> crashed s"
  shows "mu s' < mu s"
  using assms(1)
proof (cases rule: step_procE)
  case (Tail t t' s1)
  then show ?thesis using mu_tail[OF Tail(2) assms(2)] mu_tail_frame[OF Tail(2)] assms(2)
    by (simp add: mu_def)
qed (use assms(2) in \<open>auto simp: mu_def batch_weight_def\<close>)

lemma mu_commit:
  assumes "step_commit E ch s = Some s'" "\<not> crashed s"
  shows "mu s' < mu s"
  using assms(1)
proof (cases rule: step_commitE)
  case (Tail t t' s1)
  then show ?thesis using mu_tail[OF Tail(2) assms(2)] mu_tail_frame[OF Tail(2)] assms(2)
    by (simp add: mu_def)
qed (use assms(2) in \<open>auto simp: mu_def\<close>)

lemma mu_coord:
  assumes "step_coord s = Some s'" "\<not> crashed s"
  shows "mu s' < mu s"
  using assms(1)
proof (cases rule: step_coordE)
  case (Cascade se i)
  show ?thesis
    by (cases "nat i" s rule: once_close_cases)
       (use Cascade assms(2) in \<open>auto simp: mu_def nat_add_distrib\<close>)
qed (use assms(2) in \<open>auto simp: mu_def se_weight_def\<close>)

lemma mu_main:
  assumes "step_main s = Some s'" "\<not> crashed s"
  shows "mu s' < mu s"
  using assms(1)
  by (cases rule: step_mainE) (use assms(2) in \<open>auto simp: mu_def\<close>)

lemma mu_step: "step E m a s = Some s' \<Longrightarrow> mu s' < mu s"
  using mu_fetch mu_proc mu_commit mu_coord mu_main
  by (cases "fst a") (auto simp: step_def split: if_splits)

lemma exec_bounded: "exec E m sched s0 = Some s \<Longrightarrow> length sched + mu s \<le> mu s0"
proof (induction sched arbitrary: s0)
  case Nil
  then show ?case by simp
next
  case (Cons a sched)
  from Cons.prems obtain s1 where
    s1: "step E m a s0 = Some s1" "exec E m sched s1 = Some s"
    by (auto split: option.splits)
  show ?case using Cons.IH[OF s1(2)] mu_step[OF s1(1)] by simp
qed

lemma tail_blocked:
  assumes "step_tail i t s = None"
  shows "(\<exists>k. t = Done k) \<or>
         (\<exists>e. t = Ret (Failed e) \<and> \<not> errCh_closed s \<and> length (cancelChans s) \<le> length (errCh s))"
  using assms
  by (cases t; cases "exit_of t") (auto simp: step_tail_def split: if_splits)

lemma fetch_blocked:
  assumes "\<forall>ch. step_fetch E m ch s = None"
  shows "((f_pc s = F_SendEof \<or> (\<exists>items cookie. f_pc s = F_SendFull items cookie)) \<and>
            \<not> cancelChans s ! 0 \<and> batchCh s \<noteq> []) \<or>
         (\<exists>t. f_pc s = F_After t \<and> step_tail 0 t s = None)"
proof (cases "f_pc s")
  case F_Start
  then show ?thesis using assms by (auto simp: step_fetch_def split: if_splits)
next
  case F_Select
  then show ?thesis using assms
    by (auto simp: step_fetch_def Let_def split: prod.splits if_splits option.splits)
next
  case F_SendEof
  then show ?thesis using assms[rule_format, of TakeData] assms[rule_format, of TakeCancel]
    by (auto simp: step_fetch_def batchCh_cap_def split: if_splits)
next
  case (F_SendFull items cookie)
  then show ?thesis using assms[rule_format, of TakeData] assms[rule_format, of TakeCancel]
    by (auto simp: step_fetch_def batchCh_cap_def split: if_splits)
next
  case (F_After t)
  then show ?thesis using assms[rule_format, of TakeData]
    by (auto simp: step_fetch_def split: option.splits)
qed

lemma proc_blocked:
  assumes "\<forall>ch. step_proc E ch s = None"
  shows "(p_pc s = P_Read \<and> \<not> cancelChans s ! 1 \<and> batchCh s = [] \<and> \<not> batchCh_closed s) \<or>
         (\<exists>c cs. p_pc s = P_Emit (c # cs) \<and> \<not> cancelChans s ! 1 \<and>
            cookiesCh_cap \<le> length (cookiesCh s)) \<or>
         (\<exists>t. p_pc s = P_After t \<and> step_tail 1 t s = None)"
proof (cases "p_pc s")
  case P_Read
  then show ?thesis using assms[rule_format, of TakeData] assms[rule_format, of TakeCancel]
    by (auto simp: step_proc_def split: if_splits list.splits)
next
  case (P_Got b)
  then show ?thesis using assms[rule_format, of TakeData]
    by (auto simp: step_proc_def Let_def split: option.splits)
next
  case (P_Emit cs)
  then show ?thesis using assms[rule_format, of TakeData] assms[rule_format, of TakeCancel]
    by (cases cs) (auto simp: step_proc_def split: if_splits)
next
  case (P_After t)
  then show ?thesis using assms[rule_format, of TakeData]
    by (auto simp: step_proc_def split: option.splits)
qed

lemma commit_blocked:
  assumes "\<forall>ch. step_commit E ch s = None"
  shows "(c_pc s = C_Read \<and> \<not> cancelChans s ! 2 \<and> cookiesCh s = [] \<and> \<not> cookiesCh_closed s) \<or>
         (\<exists>t. c_pc s = C_After t \<and> step_tail 2 t s = None)"
proof (cases "c_pc s")
  case C_Read
  then show ?thesis using assms[rule_format, of TakeData] assms[rule_format, of TakeCancel]
    by (auto simp: step_commit_def split: if_splits list.splits)
next
  case (C_Got c)
  then show ?thesis using assms[rule_format, of TakeData]
    by (auto simp: step_commit_def Let_def split: option.splits)
next
  case (C_After t)
  then show ?thesis using assms[rule_format, of TakeData]
    by (auto simp: step_commit_def split: option.splits)
qed

lemma coord_blocked:
  assumes "step_coord s = None"
  shows "(k_pc s = K_Read \<and> errCh s = [] \<and> \<not> errCh_closed s) \<or>
         (\<exists>se. k_pc s = K_Send se \<and> \<not> doneErrCh_closed s \<and>
            length (cancelChans s) \<le> length (doneErrCh s)) \<or>
         k_pc s = K_Done"
  using assms
  by (cases "k_pc s") (auto simp: step_coord_def split: if_splits list.splits)

lemma main_blocked:
  assumes "step_main s = None"
  shows "(m_pc s = M_Wait \<and> wg s \<noteq> 0) \<or>
         (\<exists>errs. m_pc s = M_Collect errs \<and> doneErrCh s = [] \<and> \<not> doneErrCh_closed s) \<or>
         (\<exists>r. m_pc s = M_Ret r)"
  using assms
  by (cases "m_pc s") (auto simp: step_main_def split: if_splits list.splits)

lemma length_reported: "length (reported i t) \<le> 1"
  by (cases "(i, t)" rule: reported.cases) auto

lemma in_flight_bound:
  assumes "inv_errs s"
  shows "length (errCh s) + length (holding (k_pc s)) + length (doneErrCh s)
     \<le> length (reported 0 (f_tail (f_pc s))) + length (reported 1 (p_tail (p_pc s)))
       + length (reported 2 (c_tail (c_pc s)))"
proof -
  have "size (mset (map Err (errCh s @ holding (k_pc s) @ doneErrCh s)) + mset (collected (m_pc s)))
      = size (mset (map Err (failures s)))"
    using assms by (simp add: inv_errs_def)
  then show ?thesis by (simp add: failures_def)
qed

text \<open>Deadlock freedom: until \<^verbatim>\<open>Run\<close> has returned, some goroutine can move.\<close>

lemma progress:
  assumes inv: "inv_all E m s" and run: "\<forall>r. m_pc s \<noteq> M_Ret r"
  shows "\<exists>a. step E m a s \<noteq> None"
proof (rule ccontr)
  assume "\<not> (\<exists>a. step E m a s \<noteq> None)"
  then have stuck: "\<And>t ch. step E m (t, ch) s = None" by simp
  from inv have i0: "inv0 s" and ie: "inv_errs s" and ic: "inv_cancel s" and ip: "inv_proc E s"
    and icm: "inv_commit E s"
    by (simp_all add: inv_all_def)
  have nc: "\<not> crashed s" and len: "length (cancelChans s) = 3" using i0 by (simp_all add: inv0_def)
  have sf: "\<forall>ch. step_fetch E m ch s = None" using stuck[of T_Next] nc by (simp add: step_def)
  have sp: "\<forall>ch. step_proc E ch s = None" using stuck[of T_Process] nc by (simp add: step_def)
  have sc: "\<forall>ch. step_commit E ch s = None" using stuck[of T_Commit] nc by (simp add: step_def)
  have sk: "step_coord s = None" using stuck[of T_Coord] nc by (simp add: step_def)
  have sm: "step_main s = None" using stuck[of T_Main] nc by (simp add: step_def)
  note fl = in_flight_bound[OF ie]
  note lr = length_reported[of 0 "f_tail (f_pc s)"] length_reported[of 1 "p_tail (p_pc s)"]
    length_reported[of 2 "c_tail (c_pc s)"]
  have ksend: "\<not> (\<exists>se. k_pc s = K_Send se \<and> \<not> doneErrCh_closed s \<and>
            length (cancelChans s) \<le> length (doneErrCh s))"
    using fl lr len by auto
  from main_blocked[OF sm] run consider
    (wait) "m_pc s = M_Wait" "wg s \<noteq> 0"
    | (collect) errs where "m_pc s = M_Collect errs" "doneErrCh s = []" "\<not> doneErrCh_closed s"
    by blast
  then show False
  proof cases
    case collect
    then have "errCh_closed s" "k_pc s \<noteq> K_Done" using i0 by (auto simp: inv0_def)
    then show False using coord_blocked[OF sk] ksend by auto
  next
    case wait
    then have eo: "\<not> errCh_closed s" using i0 by (auto simp: inv0_def)
    then have kr: "k_pc s = K_Read" "errCh s = []"
      using coord_blocked[OF sk] ksend i0 by (auto simp: inv0_def)
    have tb: "\<exists>k. t = Done k" if "step_tail i t s = None" for i t
      using tail_blocked[OF that] kr len by auto
    have handled: "\<And>se. se \<in> set (failures s) \<Longrightarrow> closed_between (cancelChans s) (- 1) (Index se)"
      using inv_cancelD(10)[OF ic] kr by auto
    have down: "cancelChans s ! 2 \<Longrightarrow> cancelChans s ! 1" "cancelChans s ! 1 \<Longrightarrow> cancelChans s ! 0"
      using inv_cancelD(2,3)[OF ic] kr by auto
    have pdone: "cancelChans s ! 0" if "p_pc s = P_After (Done k)" "f_tail (f_pc s) = None" for k
    proof (cases k)
      case Completed
      then show ?thesis using ip that by (simp add: inv_proc_def)
    next
      case Cancelled
      then show ?thesis using inv_cancelD(8)[OF ic] that down by simp
    next
      case (Failed e)
      then have "StageError 1 e \<in> set (failures s)" using that by (simp add: failures_def)
      from handled[OF this] show ?thesis by (simp add: closed_between_def)
    qed
    have cdone: "cancelChans s ! 1" if "c_pc s = C_After (Done k)" "p_tail (p_pc s) = None" for k
    proof (cases k)
      case Completed
      then show ?thesis using icm that by (simp add: inv_commit_def)
    next
      case Cancelled
      then show ?thesis using inv_cancelD(9)[OF ic] that down by simp
    next
      case (Failed e)
      then have "StageError 2 e \<in> set (failures s)" using that by (simp add: failures_def)
      from handled[OF this] show ?thesis by (simp add: closed_between_def)
    qed
    have "(f_tail (f_pc s) = None \<and> \<not> cancelChans s ! 0 \<and> batchCh s \<noteq> []) \<or>
        (\<exists>k. f_pc s = F_After (Done k))"
      using fetch_blocked[OF sf] by (auto dest!: tb)
    then consider
      (fb) "f_tail (f_pc s) = None" "\<not> cancelChans s ! 0" "batchCh s \<noteq> []"
      | (fd) k where "f_pc s = F_After (Done k)"
      by auto
    then show False
    proof cases
      case fb
      have "(\<exists>c cs. p_pc s = P_Emit (c # cs) \<and> \<not> cancelChans s ! 1 \<and>
            cookiesCh_cap \<le> length (cookiesCh s)) \<or> (\<exists>k. p_pc s = P_After (Done k))"
        using proc_blocked[OF sp] fb by (auto dest!: tb)
      then consider
        (pe) c cs where "p_pc s = P_Emit (c # cs)" "\<not> cancelChans s ! 1"
          "cookiesCh_cap \<le> length (cookiesCh s)"
        | (pd) k where "p_pc s = P_After (Done k)"
        by blast
      then show False
      proof cases
        case pe
        then have "cookiesCh s \<noteq> []" by (auto simp: cookiesCh_cap_def)
        then obtain k where "c_pc s = C_After (Done k)"
          using commit_blocked[OF sc] by (auto dest!: tb)
        from cdone[OF this] pe show False by simp
      next
        case pd
        from pdone[OF pd fb(1)] fb show False by simp
      qed
    next
      case fd
      then have bc: "batchCh_closed s" using i0 by (simp add: inv0_def)
      have "(\<exists>c cs. p_pc s = P_Emit (c # cs) \<and> \<not> cancelChans s ! 1 \<and>
            cookiesCh_cap \<le> length (cookiesCh s)) \<or> (\<exists>k. p_pc s = P_After (Done k))"
        using proc_blocked[OF sp] bc by (auto dest!: tb)
      then consider
        (pe) c cs where "p_pc s = P_Emit (c # cs)" "\<not> cancelChans s ! 1"
          "cookiesCh_cap \<le> length (cookiesCh s)"
        | (pd) k where "p_pc s = P_After (Done k)"
        by blast
      then show False
      proof cases
        case pe
        then have "cookiesCh s \<noteq> []" by (auto simp: cookiesCh_cap_def)
        then obtain k where "c_pc s = C_After (Done k)"
          using commit_blocked[OF sc] by (auto dest!: tb)
        from cdone[OF this] pe show False by simp
      next
        case pd
        then have cc: "cookiesCh_closed s" using i0 by (simp add: inv0_def)
        then obtain k' where "c_pc s = C_After (Done k')"
          using commit_blocked[OF sc] by (auto dest!: tb)
        then show False using fd pd wait i0 by (simp add: inv0_def)
      qed
    qed
  qed
qed

section \<open>The result of a run\<close>

lemma always_returns: "0 \<le> m \<Longrightarrow> always_returns E m"
  unfolding always_returns_def
proof (intro allI impI conjI)
  fix sched s
  assume m: "0 \<le> m" and r: "run E m sched = Some s"
  show "length sched \<le> mu (Pipe_init E)"
    using exec_bounded[of E m sched "Pipe_init E" s] r by (simp add: run_def)
  assume "\<forall>r. m_pc s \<noteq> M_Ret r"
  then show "\<exists>a. step E m a s \<noteq> None"
    using progress[OF run_inv_all[OF m r]] by simp
qed

lemma exec_append:
  "exec E m (as @ bs) s = (case exec E m as s of None \<Rightarrow> None | Some s' \<Rightarrow> exec E m bs s')"
  by (induction as arbitrary: s) (auto split: option.splits)

text \<open>Every run can be continued until \<^verbatim>\<open>Run\<close> returns.\<close>

lemma completes:
  assumes "0 \<le> m" "inv_all E m s"
  shows "\<exists>sched s' r. exec E m sched s = Some s' \<and> m_pc s' = M_Ret r"
  using assms(2)
proof (induction "mu s" arbitrary: s rule: less_induct)
  case less
  show ?case
  proof (cases "\<exists>r. m_pc s = M_Ret r")
    case True
    then obtain r where "m_pc s = M_Ret r" by blast
    then have "exec E m [] s = Some s \<and> m_pc s = M_Ret r" by simp
    then show ?thesis by blast
  next
    case False
    then obtain a s1 where s1: "step E m a s = Some s1"
      using progress[OF less.prems] by auto
    from less.hyps[OF mu_step[OF s1] inv_all_step[OF less.prems assms(1) s1]]
    obtain sched s' r where "exec E m sched s1 = Some s'" "m_pc s' = M_Ret r" by blast
    then have "exec E m (a # sched) s = Some s' \<and> m_pc s' = M_Ret r" using s1 by simp
    then show ?thesis by blast
  qed
qed

lemma final_state:
  assumes "0 \<le> m" "run E m sched = Some s" "m_pc s = M_Ret r"
  obtains kf kp kc errs where
    "f_pc s = F_After (Done kf)" "p_pc s = P_After (Done kp)" "c_pc s = C_After (Done kc)"
    "r = errors_Join errs"
    "mset errs = mset (map Err (reported 0 (Some (Exit kf)) @ reported 1 (Some (Exit kp))
        @ reported 2 (Some (Exit kc))))"
proof -
  from run_inv_all[OF assms(1,2)] have i0: "inv0 s" and ie: "inv_errs s"
    by (simp_all add: inv_all_def)
  have "wg s = 0" using i0 assms(3) by (simp add: inv0_def)
  then have l: "live (f_tail (f_pc s)) = 0" "live (p_tail (p_pc s)) = 0" "live (c_tail (c_pc s)) = 0"
    using i0 by (simp_all add: inv0_def)
  have d: "\<exists>k. t = Some (Done k)" if "live t = 0" for t
    using that by (cases t rule: live.cases) auto
  obtain kf where kf: "f_pc s = F_After (Done kf)"
    using d[OF l(1)] by (cases "f_pc s") auto
  obtain kp where kp: "p_pc s = P_After (Done kp)"
    using d[OF l(2)] by (cases "p_pc s") auto
  obtain kc where kc: "c_pc s = C_After (Done kc)"
    using d[OF l(3)] by (cases "c_pc s") auto
  have k: "k_pc s = K_Done" "doneErrCh s = []" "r = errors_Join (collected (m_pc s))"
    using ie assms(3) by (simp_all add: inv_errs_def)
  then have e: "errCh s = []" using i0 by (simp add: inv0_def)
  have "mset (collected (m_pc s)) = mset (map Err (failures s))"
    using ie k e by (simp add: inv_errs_def)
  then show ?thesis using that[OF kf kp kc k(3)] kf kp kc by (simp add: failures_def)
qed

lemma errors_Is_Join:
  "errors_Join errs = Some agg \<Longrightarrow>
     errors_Is agg t \<longleftrightarrow> agg = t \<or> (\<exists>e \<in> set errs. errors_Is e t)"
  by (auto simp: errors_Join_def split: if_splits)

lemma fetch_failed_shape:
  assumes "inv_fetch E m s" "ended (f_tail (f_pc s)) = Some (Failed e)"
  shows "\<exists>e'. e = Errorf_wv ErrNextFailed e'"
  using assms by (cases "f_pc s") (auto simp: inv_fetch_def ended_def)

lemma proc_failed_shape:
  assumes "inv_proc E s" "ended (p_tail (p_pc s)) = Some (Failed e)"
  shows "\<exists>e'. e = Errorf_wv ErrProcessFailed e'"
  using assms by (cases "p_pc s") (auto simp: inv_proc_def ended_def)

lemma commit_failed_shape:
  assumes "inv_commit E s" "ended (c_tail (c_pc s)) = Some (Failed e)"
  shows "\<exists>e'. e = Errorf_wv ErrCommitFailed e'"
  using assms by (cases "c_pc s") (auto simp: inv_commit_def ended_def)

lemma commit_never_cancelled:
  assumes "inv_cancel s"
  shows "ended (c_tail (c_pc s)) \<noteq> Some Cancelled"
proof
  assume c: "ended (c_tail (c_pc s)) = Some Cancelled"
  then have "reported 2 (c_tail (c_pc s)) \<noteq> []"
    using inv_cancelD(4,9)[OF assms] by blast
  then show False using c by (cases "(2::int, c_tail (c_pc s))" rule: reported.cases) auto
qed

lemma cancelled_needs_failure:
  assumes "inv_cancel s"
    "ended (f_tail (f_pc s)) = Some Cancelled \<or> ended (p_tail (p_pc s)) = Some Cancelled"
  shows "failures s \<noteq> []"
  using assms(2) inv_cancelD(5,6,7,8)[OF assms(1)] by (auto simp: failures_def)

lemma reported_ended:
  "reported i t \<noteq> [] \<longleftrightarrow> (\<exists>e. ended t = Some (Failed e)) \<and> (\<forall>k. t \<noteq> Some (Ret k))"
  by (cases "(i, t)" rule: reported.cases) (auto simp: ended_def)

lemma errors_Is_sentinel [simp]:
  "errors_Is (Errorf_wv ErrNextFailed e) ErrNextFailed"
  "errors_Is (Errorf_wv ErrProcessFailed e) ErrProcessFailed"
  "errors_Is (Errorf_wv ErrCommitFailed e) ErrCommitFailed"
  "\<not> errors_Is (Errorf_wv ErrNextFailed e) ErrProcessFailed"
  "\<not> errors_Is (Errorf_wv ErrNextFailed e) ErrCommitFailed"
  "\<not> errors_Is (Errorf_wv ErrProcessFailed e) ErrNextFailed"
  "\<not> errors_Is (Errorf_wv ErrProcessFailed e) ErrCommitFailed"
  "\<not> errors_Is (Errorf_wv ErrCommitFailed e) ErrNextFailed"
  "\<not> errors_Is (Errorf_wv ErrCommitFailed e) ErrProcessFailed"
  by simp_all

lemma reported_Exit:
  "reported i (Some (Exit k)) = (case k of Failed e \<Rightarrow> [StageError i e] | _ \<Rightarrow> [])"
  by (cases k) simp_all

lemma Run_result:
  assumes "0 \<le> m" "run E m sched = Some s" "m_pc s = M_Ret r"
  shows "(r = None \<longleftrightarrow>
            \<not> (\<exists>e. ended (f_tail (f_pc s)) = Some (Failed e) \<or>
                    ended (p_tail (p_pc s)) = Some (Failed e) \<or>
                    ended (c_tail (c_pc s)) = Some (Failed e))) \<and>
         (r = None \<longleftrightarrow>
            ended (f_tail (f_pc s)) = Some Completed \<and> ended (p_tail (p_pc s)) = Some Completed \<and>
            ended (c_tail (c_pc s)) = Some Completed) \<and>
         (\<forall>agg. r = Some agg \<longrightarrow>
            (errors_Is agg ErrNextFailed \<longleftrightarrow> (\<exists>e. ended (f_tail (f_pc s)) = Some (Failed e))) \<and>
            (errors_Is agg ErrProcessFailed \<longleftrightarrow> (\<exists>e. ended (p_tail (p_pc s)) = Some (Failed e))) \<and>
            (errors_Is agg ErrCommitFailed \<longleftrightarrow> (\<exists>e. ended (c_tail (c_pc s)) = Some (Failed e)))) \<and>
         always_returns E m"
proof -
  from run_inv_all[OF assms(1,2)] have ic: "inv_cancel s" and "inv_fetch E m s" "inv_proc E s"
    "inv_commit E s"
    by (simp_all add: inv_all_def)
  note sh = fetch_failed_shape[OF \<open>inv_fetch E m s\<close>] proc_failed_shape[OF \<open>inv_proc E s\<close>]
    commit_failed_shape[OF \<open>inv_commit E s\<close>]
  from final_state[OF assms] obtain kf kp kc errs where
    pcs: "f_pc s = F_After (Done kf)" "p_pc s = P_After (Done kp)" "c_pc s = C_After (Done kc)"
    and r: "r = errors_Join errs"
    and errs: "mset errs = mset (map Err (reported 0 (Some (Exit kf)) @ reported 1 (Some (Exit kp))
        @ reported 2 (Some (Exit kc))))"
    by blast
  have set_errs: "set errs = set (map Err (reported 0 (Some (Exit kf)) @ reported 1 (Some (Exit kp))
        @ reported 2 (Some (Exit kc))))"
    using errs by (metis set_mset_mset)
  have empty: "errs = [] \<longleftrightarrow> reported 0 (Some (Exit kf)) @ reported 1 (Some (Exit kp))
        @ reported 2 (Some (Exit kc)) = []"
    using errs by (metis map_is_Nil_conv mset_zero_iff)
  have fl: "failures s = reported 0 (Some (Exit kf)) @ reported 1 (Some (Exit kp))
        @ reported 2 (Some (Exit kc))"
    using pcs by (simp add: failures_def)
  have nc: "kc \<noteq> Cancelled" using commit_never_cancelled[OF ic] pcs by simp
  have canc: "kf = Cancelled \<or> kp = Cancelled \<Longrightarrow> errs \<noteq> []"
    using cancelled_needs_failure[OF ic] pcs empty fl by auto
  have shf: "\<exists>e'. e = Errorf_wv ErrNextFailed e'" if "kf = Failed e" for e
    using sh(1)[of e] pcs that by simp
  have shp: "\<exists>e'. e = Errorf_wv ErrProcessFailed e'" if "kp = Failed e" for e
    using sh(2)[of e] pcs that by simp
  have shc: "\<exists>e'. e = Errorf_wv ErrCommitFailed e'" if "kc = Failed e" for e
    using sh(3)[of e] pcs that by simp
  have 1: "r = None \<longleftrightarrow>
            \<not> (\<exists>e. ended (f_tail (f_pc s)) = Some (Failed e) \<or>
                    ended (p_tail (p_pc s)) = Some (Failed e) \<or>
                    ended (c_tail (c_pc s)) = Some (Failed e))"
    using r empty pcs by (cases kf; cases kp; cases kc) auto
  have 2: "r = None \<longleftrightarrow>
            ended (f_tail (f_pc s)) = Some Completed \<and> ended (p_tail (p_pc s)) = Some Completed \<and>
            ended (c_tail (c_pc s)) = Some Completed"
    using r empty pcs nc canc by (cases kf; cases kp; cases kc) auto
  have 3: "(errors_Is agg ErrNextFailed \<longleftrightarrow> (\<exists>e. ended (f_tail (f_pc s)) = Some (Failed e))) \<and>
            (errors_Is agg ErrProcessFailed \<longleftrightarrow> (\<exists>e. ended (p_tail (p_pc s)) = Some (Failed e))) \<and>
            (errors_Is agg ErrCommitFailed \<longleftrightarrow> (\<exists>e. ended (c_tail (c_pc s)) = Some (Failed e)))"
    if "r = Some agg" for agg
  proof -
    have j: "agg = Join errs" using that r by (auto simp: errors_Join_def split: if_splits)
    show ?thesis
      unfolding j using pcs shf shp shc
      by (cases kf; cases kp; cases kc) (auto simp: set_errs)
  qed
  show ?thesis using 1 2 3 always_returns[OF assms(1)] by blast
qed

text \<open>
  C8.  When \<^verbatim>\<open>Pipe\<close> returns, it returns nil exactly when no stage function returned an
  error, which is exactly when all three stages completed (none failed, none was
  cancelled); a non-nil result matches \<^verbatim>\<open>ErrNextFailed\<close>, \<^verbatim>\<open>ErrProcessFailed\<close>,
  \<^verbatim>\<open>ErrCommitFailed\<close> under \<^verbatim>\<open>errors.Is\<close> exactly when the fetch, process, commit stage
  failed, each independently of the others.  And \<^verbatim>\<open>Pipe\<close> returns on every schedule.
\<close>

theorem Run_aggregates_stage_failures:
  assumes "0 \<le> m" "run E m sched = Some s" "m_pc s = M_Ret r"
  shows "(r = None \<longleftrightarrow>
            \<not> (\<exists>e. ended (f_tail (f_pc s)) = Some (Failed e) \<or>
                    ended (p_tail (p_pc s)) = Some (Failed e) \<or>
                    ended (c_tail (c_pc s)) = Some (Failed e))) \<and>
         (r = None \<longleftrightarrow>
            ended (f_tail (f_pc s)) = Some Completed \<and> ended (p_tail (p_pc s)) = Some Completed \<and>
            ended (c_tail (c_pc s)) = Some Completed) \<and>
         (\<forall>agg. r = Some agg \<longrightarrow>
            (errors_Is agg ErrNextFailed \<longleftrightarrow> (\<exists>e. ended (f_tail (f_pc s)) = Some (Failed e))) \<and>
            (errors_Is agg ErrProcessFailed \<longleftrightarrow> (\<exists>e. ended (p_tail (p_pc s)) = Some (Failed e))) \<and>
            (errors_Is agg ErrCommitFailed \<longleftrightarrow> (\<exists>e. ended (c_tail (c_pc s)) = Some (Failed e)))) \<and>
         always_returns E m"
  using assms by (rule Run_result)

lemma process_fails_run:
  "(case run process_fails 2 process_fails_schedule of
      None \<Rightarrow> False
    | Some s \<Rightarrow>
        m_pc s = M_Ret (Some (Join [Errorf_wv ErrProcessFailed (Cause ''boom'')])) \<and>
        trace s = [ENext ([''x'', ''y''], 1, None), ENext ([''z''], 2, None),
                   ESeal (Batch [''x'', ''y''] [1]),
                   ENext ([], 0, Some ErrEofCommitCookie), ESeal (Batch [''z''] [2]),
                   EProcess [''x'', ''y''] (Some (Cause ''boom''))])"
  by code_simp

theorem Run_aggregates_stage_failures_witness:
  "\<exists>s agg. run process_fails 2 process_fails_schedule = Some s \<and> m_pc s = M_Ret (Some agg) \<and>
     errors_Is agg ErrProcessFailed \<and> \<not> errors_Is agg ErrNextFailed \<and>
     \<not> errors_Is agg ErrCommitFailed \<and>
     (\<exists>e. ended (p_tail (p_pc s)) = Some (Failed e)) \<and>
     always_returns process_fails 2"
proof -
  obtain s where s: "run process_fails 2 process_fails_schedule = Some s"
    "m_pc s = M_Ret (Some (Join [Errorf_wv ErrProcessFailed (Cause ''boom'')]))"
    using process_fails_run by (auto split: option.splits)
  let ?agg = "Join [Errorf_wv ErrProcessFailed (Cause ''boom'')]"
  have m: "(0::int) \<le> 2" by simp
  have isa: "errors_Is ?agg ErrProcessFailed" "\<not> errors_Is ?agg ErrNextFailed"
    "\<not> errors_Is ?agg ErrCommitFailed"
    by simp_all
  note t = Run_aggregates_stage_failures[OF m s]
  from t have a: "always_returns process_fails 2" by blast
  from t have "errors_Is ?agg ErrProcessFailed \<longleftrightarrow> (\<exists>e. ended (p_tail (p_pc s)) = Some (Failed e))"
    by blast
  then have "\<exists>e. ended (p_tail (p_pc s)) = Some (Failed e)" using isa(1) by blast
  then show ?thesis using s isa a by blast
qed

section \<open>The cascade\<close>

lemma tail_frame:
  assumes "step_tail i t s = Some (t', s1)"
  shows "cancelChans s1 = cancelChans s" "onceList s1 = onceList s" "k_pc s1 = k_pc s"
    "trace s1 = trace s"
  using assms by (cases rule: step_tailE; simp)+

lemma fetch_frame:
  assumes "step_fetch E m ch s = Some s'"
  shows "cancelChans s' = cancelChans s \<and> onceList s' = onceList s \<and> k_pc s' = k_pc s"
  using assms by (cases rule: step_fetchE) (auto dest: tail_frame)

lemma proc_frame:
  assumes "step_proc E ch s = Some s'"
  shows "cancelChans s' = cancelChans s \<and> onceList s' = onceList s \<and> k_pc s' = k_pc s"
  using assms by (cases rule: step_procE) (auto dest: tail_frame)

lemma commit_frame:
  assumes "step_commit E ch s = Some s'"
  shows "cancelChans s' = cancelChans s \<and> onceList s' = onceList s \<and> k_pc s' = k_pc s"
  using assms by (cases rule: step_commitE) (auto dest: tail_frame)

lemma main_frame:
  assumes "step_main s = Some s'"
  shows "cancelChans s' = cancelChans s \<and> onceList s' = onceList s \<and> k_pc s' = k_pc s"
  using assms by (cases rule: step_mainE) auto

lemma closed_between_mono:
  assumes "closed_between cs lo hi" "length cs = 3" "i < 3"
  shows "closed_between (cs[i := True]) lo hi"
  using assms by (auto simp: closed_between_def nth_list_update)

text \<open>
  What a step of the coordinator does to the tokens: nothing, or it closes the one
  token the cascade is at, which was open.
\<close>

lemma coord_tokens:
  assumes "step_coord s = Some s'" "inv0 s"
  shows "cancelChans s' = cancelChans s \<or>
         (\<exists>se i. k_pc s = K_Cascade se i \<and> 0 \<le> i \<and> \<not> cancelChans s ! nat i \<and>
            cancelChans s' = (cancelChans s)[nat i := True])"
  using assms(1)
proof (cases rule: step_coordE)
  case (Cascade se i)
  have l: "length (cancelChans s) = 3" "onceList s = cancelChans s" "i \<le> 2"
    using assms(2) Cascade by (auto simp: inv0_def)
  show ?thesis
    by (cases "nat i" s rule: once_close_cases) (use Cascade l in auto)
qed auto

lemma inv_sent_step:
  assumes "inv_sent s" "inv_all E m s" "step E m a s = Some s'"
  shows "inv_sent s'"
proof (cases "fst a")
  case T_Coord
  then have st: "step_coord s = Some s'" using assms(3) by (auto simp: step_def split: if_splits)
  from assms(2) have i0: "inv0 s" and ic: "inv_cancel s" by (simp_all add: inv_all_def)
  have l: "length (cancelChans s) = 3" using i0 by (simp add: inv0_def)
  from st show ?thesis
  proof (cases rule: step_coordE)
    case (Cascade se i)
    then show ?thesis by (simp add: inv_sent_def)
  next
    case (Cascade_end se i)
    have "i = - 1" using inv_cancelD(1)[OF ic Cascade_end(1)] Cascade_end(2) by linarith
    then have "closed_between (cancelChans s) (- 1) (Index se)"
      using inv_cancelD(1)[OF ic Cascade_end(1)] by simp
    then show ?thesis using Cascade_end by (simp add: inv_sent_def)
  qed (use assms(1) in \<open>simp_all add: inv_sent_def\<close>)
next
  case T_Next
  then show ?thesis using assms(1,3) fetch_frame[of E m "snd a" s s']
    by (auto simp: step_def inv_sent_def split: if_splits)
next
  case T_Process
  then show ?thesis using assms(1,3) proc_frame[of E "snd a" s s']
    by (auto simp: step_def inv_sent_def split: if_splits)
next
  case T_Commit
  then show ?thesis using assms(1,3) commit_frame[of E "snd a" s s']
    by (auto simp: step_def inv_sent_def split: if_splits)
next
  case T_Main
  then show ?thesis using assms(1,3) main_frame[of s s']
    by (auto simp: step_def inv_sent_def split: if_splits)
qed

lemma run_inv_sent:
  assumes "0 \<le> m" "run E m sched = Some s"
  shows "inv_sent s"
proof -
  have "inv_sent s \<and> inv_all E m s"
    using assms(2) unfolding run_def
  proof (rule exec_invariant[rotated 2])
    show "inv_sent (Pipe_init E) \<and> inv_all E m (Pipe_init E)"
      using run_inv_all[OF assms(1), of E "[]"] by (simp add: inv_sent_def Pipe_init_def run_def)
  next
    fix a s s'
    assume "inv_sent s \<and> inv_all E m s" "step E m a s = Some s'"
    then show "inv_sent s' \<and> inv_all E m s'"
      using inv_sent_step inv_all_step[OF _ assms(1)] by blast
  qed
  then show ?thesis by simp
qed

lemma closed_between_nth:
  assumes "closed_between cs lo hi" "hi \<le> 2" "lo < int j" "int j \<le> hi"
  shows "cs ! j"
proof -
  have "j = 0 \<or> j = 1 \<or> j = 2" using assms(2,4) by linarith
  then show ?thesis using assms by (auto simp: closed_between_def)
qed

lemma run_snoc:
  "run E m sched = Some s \<Longrightarrow> step E m a s = Some s' \<Longrightarrow> run E m (sched @ [a]) = Some s'"
  by (simp add: run_def exec_append)

lemma run_exec:
  "run E m sched = Some s \<Longrightarrow> exec E m sched' s = Some s' \<Longrightarrow>
   run E m (sched @ sched') = Some s'"
  by (simp add: run_def exec_append)

text \<open>In a cascade the coordinator can always move, and its step is the guarded close.\<close>

lemma cascade_step:
  assumes "inv0 s" "k_pc s = K_Cascade se i"
  shows "\<exists>s'. step E m (T_Coord, ch) s = Some s' \<and>
           (if 0 \<le> i
            then k_pc s' = K_Cascade se (i - 1) \<and> cancelChans s' = (cancelChans s)[nat i := True]
            else k_pc s' = K_Send se \<and> cancelChans s' = cancelChans s)"
proof -
  have l: "length (cancelChans s) = 3" "onceList s = cancelChans s" "i \<le> 2" "\<not> crashed s"
    using assms by (auto simp: inv0_def)
  show ?thesis
  proof (cases "0 \<le> i")
    case True
    have st: "step E m (T_Coord, ch) s = Some ((once_close (nat i) s)\<lparr>k_pc := K_Cascade se (i - 1)\<rparr>)"
      using l(4) assms(2) True by (simp add: step_def step_coord_def)
    have "cancelChans (once_close (nat i) s) = (cancelChans s)[nat i := True]"
    proof (cases "nat i" s rule: once_close_cases)
      case Noop
      then have "cancelChans s ! nat i = True" using l(2) by simp
      then have "(cancelChans s)[nat i := True] = cancelChans s" by (metis list_update_id)
      then show ?thesis using Noop by simp
    qed (use l True in auto)
    then show ?thesis using st True by simp
  next
    case False
    then show ?thesis using l(4) assms(2) by (simp add: step_def step_coord_def)
  qed
qed

text \<open>The coordinator's own steps take a cascade to its end, whatever the others do.\<close>

lemma cascade_runs:
  assumes "0 \<le> m" "run E m sched = Some s" "k_pc s = K_Cascade se i"
  shows "\<exists>s'. exec E m (replicate (nat (i + 2)) (T_Coord, TakeData)) s = Some s' \<and>
           k_pc s' = K_Send se"
  using assms(2,3)
proof (induction "nat (i + 1)" arbitrary: sched s i)
  case 0
  from run_inv_all[OF assms(1) 0(2)] have i0: "inv0 s" and ic: "inv_cancel s"
    by (simp_all add: inv_all_def)
  from inv_cancelD(1)[OF ic 0(3)] 0(1) have i: "i = - 1" by linarith
  from cascade_step[OF i0 0(3), of E m TakeData] i obtain s' where
    "step E m (T_Coord, TakeData) s = Some s'" "k_pc s' = K_Send se" by auto
  then show ?case using i by simp
next
  case (Suc n)
  from run_inv_all[OF assms(1) Suc(3)] have i0: "inv0 s" by (simp add: inv_all_def)
  from Suc(2) have i: "0 \<le> i" by linarith
  from cascade_step[OF i0 Suc(4), of E m TakeData] i obtain s1 where
    s1: "step E m (T_Coord, TakeData) s = Some s1" "k_pc s1 = K_Cascade se (i - 1)" by auto
  have n: "n = nat (i - 1 + 1)" using Suc(2) by linarith
  from Suc(1)[OF n run_snoc[OF Suc(3) s1(1)] s1(2)] obtain s' where
    s': "exec E m (replicate (nat (i - 1 + 2)) (T_Coord, TakeData)) s1 = Some s'"
      "k_pc s' = K_Send se" by blast
  have "nat (i + 2) = Suc (nat (i - 1 + 2))" using i by linarith
  then show ?case using s1(1) s' by simp
qed

text \<open>
  C2.  On every schedule: closing a token never panics and never blocks.  While the
  coordinator runs the cascade for a stage error with index \<open>Index se\<close> and is at index
  \<open>i\<close>, the tokens above \<open>i\<close> and up to \<open>Index se\<close> are closed, and when the cascade is
  over (the stage error is about to be forwarded) every token up to \<open>Index se\<close> is
  closed.  A step changes a token only when it is the cascade's step at that token's
  index, which is at most \<open>Index se\<close>, and then it closes a token that was open.  The
  guarded close of a token that is closed changes nothing.  In a cascade the
  coordinator's step is always enabled: it does not panic, it leaves the token at
  \<open>i\<close> closed (whether or not it was closed before) and goes on to index \<open>i - 1\<close>, or
  ends the cascade below index 0; the coordinator's own \<open>i + 2\<close> steps, with no step of
  another goroutine, take the cascade to its end, where every token up to \<open>Index se\<close>
  is closed.  And \<^verbatim>\<open>Pipe\<close> returns on every schedule.
\<close>

theorem cascade_closes_tokens_up_to_index:
  assumes "0 \<le> m" "run E m sched = Some s"
  shows "\<not> crashed s \<and>
         (\<forall>se i. k_pc s = K_Cascade se i \<longrightarrow>
            i \<le> Index se \<and> (\<forall>j. i < int j \<and> int j \<le> Index se \<longrightarrow> cancelChans s ! j)) \<and>
         (\<forall>se. k_pc s = K_Send se \<longrightarrow> (\<forall>j. int j \<le> Index se \<longrightarrow> cancelChans s ! j)) \<and>
         (\<forall>a s' j. step E m a s = Some s' \<and> j < 3 \<and> cancelChans s' ! j \<noteq> cancelChans s ! j \<longrightarrow>
            (\<exists>se. fst a = T_Coord \<and> k_pc s = K_Cascade se (int j) \<and> int j \<le> Index se \<and>
               \<not> cancelChans s ! j \<and> cancelChans s' ! j)) \<and>
         (\<forall>j < 3. cancelChans s ! j \<longrightarrow> once_close j s = s) \<and>
         (\<forall>se i ch. k_pc s = K_Cascade se i \<longrightarrow>
            (\<exists>s'. step E m (T_Coord, ch) s = Some s' \<and> \<not> crashed s' \<and>
               (if 0 \<le> i
                then k_pc s' = K_Cascade se (i - 1) \<and>
                     cancelChans s' = (cancelChans s)[nat i := True]
                else k_pc s' = K_Send se \<and> cancelChans s' = cancelChans s))) \<and>
         (\<forall>se i. k_pc s = K_Cascade se i \<longrightarrow>
            (\<exists>s'. exec E m (replicate (nat (i + 2)) (T_Coord, TakeData)) s = Some s' \<and>
               \<not> crashed s' \<and> k_pc s' = K_Send se \<and>
               (\<forall>j. int j \<le> Index se \<longrightarrow> cancelChans s' ! j))) \<and>
         always_returns E m"
proof -
  have i0: "inv0 s" and ie: "inv_errs s" and ic: "inv_cancel s"
    if "run E m sched = Some s" for sched and s :: "'a state"
    using run_inv_all[OF assms(1) that] by (simp_all add: inv_all_def)
  have l: "length (cancelChans s) = 3" "onceList s = cancelChans s" "\<not> crashed s"
    using i0[OF assms(2)] by (simp_all add: inv0_def)
  have held: "Index se \<le> 2" if "run E m sched = Some s" "se \<in> set (holding (k_pc s))"
    for se sched and s :: "'a state"
  proof -
    have "se \<in> set (failures s)" using ie[OF that(1)] that(2) by (auto simp: inv_errs_def)
    from failures_Index[OF this] show ?thesis by auto
  qed
  have b: "i \<le> Index se \<and> (\<forall>j. i < int j \<and> int j \<le> Index se \<longrightarrow> cancelChans s ! j)"
    if "k_pc s = K_Cascade se i" for se i
    using inv_cancelD(1)[OF ic[OF assms(2)] that] held[OF assms(2), of se] that closed_between_nth
    by auto
  have c: "\<forall>j. int j \<le> Index se \<longrightarrow> cancelChans s ! j"
    if "run E m sched = Some s" "k_pc s = K_Send se" for se sched and s :: "'a state"
  proof -
    have "closed_between (cancelChans s) (- 1) (Index se)"
      using run_inv_sent[OF assms(1) that(1)] that(2) by (simp add: inv_sent_def)
    then show ?thesis using held[OF that(1), of se] that(2) closed_between_nth by fastforce
  qed
  have d: "\<exists>se. fst a = T_Coord \<and> k_pc s = K_Cascade se (int j) \<and> int j \<le> Index se \<and>
               \<not> cancelChans s ! j \<and> cancelChans s' ! j"
    if "step E m a s = Some s'" "j < 3" "cancelChans s' ! j \<noteq> cancelChans s ! j" for a s' j
  proof (cases "fst a")
    case T_Coord
    then have "step_coord s = Some s'" using that(1) by (auto simp: step_def split: if_splits)
    from coord_tokens[OF this i0[OF assms(2)]] that(3) obtain se i where
      k: "k_pc s = K_Cascade se i" "0 \<le> i" "\<not> cancelChans s ! nat i"
        "cancelChans s' = (cancelChans s)[nat i := True]"
      by auto
    have "nat i = j"
    proof (rule ccontr)
      assume "nat i \<noteq> j"
      then have "cancelChans s' ! j = cancelChans s ! j" using k(4) by simp
      then show False using that(3) by simp
    qed
    then show ?thesis using k b[OF k(1)] T_Coord l that(2) by auto
  next
    case T_Next
    then show ?thesis using that fetch_frame[of E m "snd a" s s']
      by (auto simp: step_def split: if_splits)
  next
    case T_Process
    then show ?thesis using that proc_frame[of E "snd a" s s']
      by (auto simp: step_def split: if_splits)
  next
    case T_Commit
    then show ?thesis using that commit_frame[of E "snd a" s s']
      by (auto simp: step_def split: if_splits)
  next
    case T_Main
    then show ?thesis using that main_frame[of s s'] by (auto simp: step_def split: if_splits)
  qed
  have e: "\<forall>j < 3. cancelChans s ! j \<longrightarrow> once_close j s = s"
    using l by (auto simp: once_close_def)
  have f: "\<exists>s'. step E m (T_Coord, ch) s = Some s' \<and> \<not> crashed s' \<and>
               (if 0 \<le> i
                then k_pc s' = K_Cascade se (i - 1) \<and>
                     cancelChans s' = (cancelChans s)[nat i := True]
                else k_pc s' = K_Send se \<and> cancelChans s' = cancelChans s)"
    if "k_pc s = K_Cascade se i" for se i ch
  proof -
    from cascade_step[OF i0[OF assms(2)] that, of E m ch] obtain s' where
      s': "step E m (T_Coord, ch) s = Some s'"
        "if 0 \<le> i
         then k_pc s' = K_Cascade se (i - 1) \<and> cancelChans s' = (cancelChans s)[nat i := True]
         else k_pc s' = K_Send se \<and> cancelChans s' = cancelChans s"
      by blast
    have "\<not> crashed s'" using i0[OF run_snoc[OF assms(2) s'(1)]] by (simp add: inv0_def)
    then show ?thesis using s' by blast
  qed
  have g: "\<exists>s'. exec E m (replicate (nat (i + 2)) (T_Coord, TakeData)) s = Some s' \<and>
               \<not> crashed s' \<and> k_pc s' = K_Send se \<and>
               (\<forall>j. int j \<le> Index se \<longrightarrow> cancelChans s' ! j)"
    if "k_pc s = K_Cascade se i" for se i
  proof -
    from cascade_runs[OF assms that] obtain s' where
      s': "exec E m (replicate (nat (i + 2)) (T_Coord, TakeData)) s = Some s'" "k_pc s' = K_Send se"
      by blast
    note r = run_exec[OF assms(2) s'(1)]
    have "\<not> crashed s'" using i0[OF r] by (simp add: inv0_def)
    then show ?thesis using s' c[OF r s'(2)] by blast
  qed
  show ?thesis using l(3) b c[OF assms(2)] d e f g always_returns[OF assms(1)] by blast
qed

lemma two_failures_cascade:
  "(case run two_failures 1 two_failures_schedule of
      None \<Rightarrow> False
    | Some s \<Rightarrow>
        k_pc s = K_Cascade (StageError 1 (Errorf_wv ErrProcessFailed (Cause ''boom''))) 0 \<and>
        cancelChans s = [True, True, False])"
  by code_simp

theorem cascade_closes_tokens_up_to_index_witness:
  "\<exists>s se s1 s2. run two_failures 1 two_failures_schedule = Some s \<and>
     k_pc s = K_Cascade se 0 \<and> Index se = 1 \<and> \<not> crashed s \<and>
     cancelChans s ! 0 \<and> cancelChans s ! 1 \<and> \<not> cancelChans s ! 2 \<and>
     once_close 0 s = s \<and>
     step two_failures 1 (T_Coord, TakeData) s = Some s1 \<and> \<not> crashed s1 \<and>
     k_pc s1 = K_Cascade se (- 1) \<and> cancelChans s1 = cancelChans s \<and>
     exec two_failures 1 [(T_Coord, TakeData), (T_Coord, TakeData)] s = Some s2 \<and>
     \<not> crashed s2 \<and> k_pc s2 = K_Send se \<and> cancelChans s2 ! 0 \<and> cancelChans s2 ! 1 \<and>
     always_returns two_failures 1"
proof -
  let ?se = "StageError 1 (Errorf_wv ErrProcessFailed (Cause ''boom''))"
  obtain s where s: "run two_failures 1 two_failures_schedule = Some s"
    "k_pc s = K_Cascade ?se 0" "cancelChans s = [True, True, False]"
    using two_failures_cascade by (auto split: option.splits)
  have m: "(0::int) \<le> 1" by simp
  note t = cascade_closes_tokens_up_to_index[OF m s(1)]
  from t have c: "\<not> crashed s" by blast
  from t have "\<forall>j < 3. cancelChans s ! j \<longrightarrow> once_close j s = s" by blast
  then have o: "once_close 0 s = s" using s(3) by simp
  from t s(2) obtain s1 where s1: "step two_failures 1 (T_Coord, TakeData) s = Some s1"
    "\<not> crashed s1"
    "if (0::int) \<le> 0
     then k_pc s1 = K_Cascade ?se (0 - 1) \<and> cancelChans s1 = (cancelChans s)[nat 0 := True]
     else k_pc s1 = K_Send ?se \<and> cancelChans s1 = cancelChans s"
    by blast
  from s1(3) s(3) have s1': "k_pc s1 = K_Cascade ?se (- 1)" "cancelChans s1 = cancelChans s"
    by simp_all
  from t s(2) obtain s2 where
    s2: "exec two_failures 1 (replicate (nat (0 + 2)) (T_Coord, TakeData)) s = Some s2"
      "\<not> crashed s2" "k_pc s2 = K_Send ?se" "\<forall>j. int j \<le> Index ?se \<longrightarrow> cancelChans s2 ! j"
    by blast
  have r: "replicate (nat (0 + 2)) (T_Coord, TakeData) = [(T_Coord, TakeData), (T_Coord, TakeData)]"
    by (simp add: numeral_2_eq_2)
  from s2(4) have s2': "cancelChans s2 ! 0" "cancelChans s2 ! 1" by simp_all
  from t have a: "always_returns two_failures 1" by blast
  show ?thesis using s c o s1(1,2) s1' s2(1)[unfolded r] s2(2,3) s2' a by auto
qed

section \<open>The log of a run\<close>

text \<open>A step appends at most one event to the log, and every prefix of a log is the log of a run.\<close>

lemma tail_trace:
  assumes "step_tail i t s = Some (t', s1)"
  shows "trace s1 = trace s"
  using assms by (cases rule: step_tailE; simp)

lemma step_trace: 
  assumes "step E m a s = Some s'"
  shows "trace s' = trace s \<or> (\<exists>ev. trace s' = trace s @ [ev])"
proof -
  have c: "trace (once_close i s) = trace s" for i
    by (cases i s rule: once_close_cases) simp_all
  show ?thesis
  proof (cases "fst a")
    case T_Next
    then have "step_fetch E m (snd a) s = Some s'" using assms by (auto simp: step_def split: if_splits)
    then show ?thesis by (cases rule: step_fetchE) (auto dest: tail_trace)
  next
    case T_Process
    then have "step_proc E (snd a) s = Some s'" using assms by (auto simp: step_def split: if_splits)
    then show ?thesis by (cases rule: step_procE) (auto dest: tail_trace)
  next
    case T_Commit
    then have "step_commit E (snd a) s = Some s'" using assms by (auto simp: step_def split: if_splits)
    then show ?thesis by (cases rule: step_commitE) (auto dest: tail_trace)
  next
    case T_Coord
    then have "step_coord s = Some s'" using assms by (auto simp: step_def split: if_splits)
    then show ?thesis by (cases rule: step_coordE) (auto simp: c)
  next
    case T_Main
    then have "step_main s = Some s'" using assms by (auto simp: step_def split: if_splits)
    then show ?thesis by (cases rule: step_mainE) auto
  qed
qed

text \<open>The log only grows.\<close>

lemma exec_trace_prefix: "exec E m sched s = Some s' \<Longrightarrow> prefix (trace s) (trace s')"
proof (induction sched arbitrary: s)
  case Nil
  then show ?case by simp
next
  case (Cons a sched)
  from Cons.prems obtain s1 where
    s1: "step E m a s = Some s1" "exec E m sched s1 = Some s'"
    by (auto split: option.splits)
  have "prefix (trace s) (trace s1)" using step_trace[OF s1(1)] by auto
  then show ?case using Cons.IH[OF s1(2)] by (rule prefix_order.trans)
qed

text \<open>Every prefix of the log of a run is the log of an earlier state of that run.\<close>

lemma exec_trace_cut:
  assumes "exec E m sched s = Some s'" "prefix (trace s) tr" "prefix tr (trace s')"
  shows "\<exists>sched1 sched2 s1. sched = sched1 @ sched2 \<and> exec E m sched1 s = Some s1 \<and> trace s1 = tr"
  using assms
proof (induction sched arbitrary: s)
  case Nil
  then have "trace s = tr" by (simp add: prefix_order.antisym)
  then show ?case by auto
next
  case (Cons a sched)
  from Cons.prems(1) obtain s1 where
    s1: "step E m a s = Some s1" "exec E m sched s1 = Some s'"
    by (auto split: option.splits)
  show ?case
  proof (cases "prefix (trace s1) tr")
    case True
    from Cons.IH[OF s1(2) True Cons.prems(3)] obtain sched1 sched2 s2 where
      "sched = sched1 @ sched2" "exec E m sched1 s1 = Some s2" "trace s2 = tr"
      by blast
    then have "a # sched = (a # sched1) @ sched2 \<and> exec E m (a # sched1) s = Some s2 \<and> trace s2 = tr"
      using s1(1) by simp
    then show ?thesis by blast
  next
    case False
    have "trace s = tr"
    proof (cases "trace s1 = trace s")
      case True
      then show ?thesis using False Cons.prems(2) by simp
    next
      case n: False
      then obtain ev where ev: "trace s1 = trace s @ [ev]" using step_trace[OF s1(1)] by auto
      from Cons.prems(2) obtain zs where zs: "tr = trace s @ zs" by (auto simp: prefix_def)
      show ?thesis
      proof (cases zs)
        case Nil
        then show ?thesis using zs by simp
      next
        case (Cons z zs')
        have "prefix (trace s1) (trace s')" using exec_trace_prefix[OF s1(2)] .
        then have "prefix (trace s @ [ev]) (trace s')" using ev by simp
        moreover have "prefix (trace s @ z # zs') (trace s')" using Cons.prems(3) zs Cons
          using \<open>prefix tr (trace s')\<close> zs local.Cons by simp
        ultimately have "z = ev"
          by (auto simp: prefix_def append_eq_append_conv2 Cons_eq_append_conv)
        then have "prefix (trace s1) tr" using ev zs Cons by simp
        then show ?thesis using False by simp
      qed
    qed
    then have "a # sched = [] @ (a # sched) \<and> exec E m [] s = Some s \<and> trace s = tr" by simp
    then show ?thesis by blast
  qed
qed

lemma run_trace_cut:
  assumes "run E m sched = Some s" "prefix tr (trace s)"
  shows "\<exists>sched1 s1. run E m sched1 = Some s1 \<and> trace s1 = tr"
  using exec_trace_cut[of E m sched "Pipe_init E" s tr] assms
  by (auto simp: run_def Pipe_init_def)

section \<open>A failing call\<close>

text \<open>A failed call is the last of its log.\<close>

lemma all_ok_mem: "all_ok log \<Longrightarrow> (x, Some e) \<notin> set log"
  by (auto simp: all_ok_def list_all_iff)

lemma failed_last:
  assumes "log \<noteq> []" "all_ok (butlast log)" "(x, Some e) \<in> set log"
  shows "\<exists>ps. log = ps @ [(x, Some e)] \<and> all_ok ps"
proof -
  from assms(1) have l: "log = butlast log @ [last log]" by simp
  have "(x, Some e) \<notin> set (butlast log)" using assms(2) by (rule all_ok_mem)
  moreover have "set log = set (butlast log) \<union> {last log}" by (subst l) simp
  ultimately have "last log = (x, Some e)" using assms(3) by auto
  then show ?thesis using l assms(2) by metis
qed

lemma failure_is_final:
  assumes "log = ps @ [(x, Some e)]" "log' = ps' @ [(x', Some e')]" "all_ok ps'" "prefix log log'"
  shows "log' = log"
proof -
  from assms(4) obtain zs where zs: "log' = log @ zs" by (auto simp: prefix_def)
  show ?thesis
  proof (cases zs rule: rev_cases)
    case Nil
    then show ?thesis using zs by simp
  next
    case (snoc zs' z)
    then have "ps' = ps @ [(x, Some e)] @ zs'" using zs assms(1,2) by simp
    then have "(x, Some e) \<in> set ps'" by simp
    then show ?thesis using all_ok_mem[OF assms(3)] by simp
  qed
qed

lemma proc_failed_state:
  assumes "inv_proc E s" "(xs, Some e) \<in> set (procs (trace s))"
  shows "\<exists>ps. procs (trace s) = ps @ [(xs, Some e)] \<and> all_ok ps \<and>
           ended (p_tail (p_pc s)) = Some (Failed (Errorf_wv ErrProcessFailed e)) \<and>
           xs = buf (seals (trace s) ! length ps) \<and>
           emits (trace s) = concat (map cookies (take (length ps) (seals (trace s))))"
proof -
  let ?ps = "procs (trace s)" and ?ss = "seals (trace s)"
  have nok: "\<not> all_ok ?ps" using assms(2) by (auto dest: all_ok_mem)
  from assms(1) have m: "map fst ?ps = map buf (take (length ?ps) ?ss)"
    and le: "length ?ps + p_got (p_pc s) \<le> length ?ss"
    and ok: "proc_ok ?ss ?ps (emits (trace s)) (p_pc s)"
    by (simp_all add: inv_proc_def)
  from ok nok obtain t where t: "p_pc s = P_After t" by (cases "p_pc s") auto
  from ok nok t obtain e0 where e0: "exit_of t = Failed e0" by (cases "exit_of t") auto
  from ok t e0 have d: "?ps \<noteq> []" "all_ok (butlast ?ps)"
    "\<exists>e'. snd (last ?ps) = Some e' \<and> e0 = Errorf_wv ErrProcessFailed e'"
    "emits (trace s) = concat (map cookies (take (length ?ps - 1) ?ss))"
    by simp_all
  from failed_last[OF d(1,2) assms(2)] obtain ps where ps: "?ps = ps @ [(xs, Some e)]" "all_ok ps"
    by blast
  have e: "e0 = Errorf_wv ErrProcessFailed e" using d(3) ps by simp
  have "length ps < length ?ss" using le ps by simp
  moreover have "map fst ?ps ! length ps = map buf (take (length ?ps) ?ss) ! length ps"
    using m by simp
  ultimately have "xs = buf (?ss ! length ps)" using ps(1) by (simp add: nth_append)
  then show ?thesis using ps e t e0 d(4) by (simp add: ended_def)
qed

lemma commit_failed_state:
  assumes "inv_commit E s" "(c, Some e) \<in> set (commits (trace s))"
  shows "\<exists>cs. commits (trace s) = cs @ [(c, Some e)] \<and> all_ok cs \<and>
           ended (c_tail (c_pc s)) = Some (Failed (Errorf_wv ErrCommitFailed e)) \<and>
           map fst (commits (trace s)) = take (Suc (length cs)) (emits (trace s))"
proof -
  let ?cs = "commits (trace s)"
  have nok: "\<not> all_ok ?cs" using assms(2) by (auto dest: all_ok_mem)
  from assms(1) have m: "map fst ?cs = take (length ?cs) (emits (trace s))"
    and ok: "commit_ok (emits (trace s)) ?cs (c_pc s)"
    by (simp_all add: inv_commit_def)
  from ok nok obtain t where t: "c_pc s = C_After t" by (cases "c_pc s") auto
  from ok nok t obtain e0 where e0: "exit_of t = Failed e0" by (cases "exit_of t") auto
  from ok t e0 have d: "?cs \<noteq> []" "all_ok (butlast ?cs)"
    "\<exists>e'. snd (last ?cs) = Some e' \<and> e0 = Errorf_wv ErrCommitFailed e'"
    by simp_all
  from failed_last[OF d(1,2) assms(2)] obtain cs where cs: "?cs = cs @ [(c, Some e)]" "all_ok cs"
    by blast
  have e: "e0 = Errorf_wv ErrCommitFailed e" using d(3) cs by simp
  show ?thesis using cs e t e0 m by (simp add: ended_def)
qed

text \<open>
  C6.  Once a \<^verbatim>\<open>Process\<close> call has failed, on every schedule and in every
  continuation of the run: that call stays the last \<^verbatim>\<open>Process\<close> call of the run, and
  all the calls before it succeeded, so no later batch is processed; its argument is
  the batch sealed at its position; the cookies emitted to the commit stage are
  exactly those of the batches sealed before the failed one, so none of the failed
  batch and none of a later one is emitted; the acknowledged cookies are a prefix of
  the emitted ones; and when \<^verbatim>\<open>Pipe\<close> has returned, it has returned an error that
  matches \<^verbatim>\<open>ErrProcessFailed\<close>.  The run can be continued until \<^verbatim>\<open>Pipe\<close> returns, and
  \<^verbatim>\<open>Pipe\<close> returns on every schedule.
\<close>

theorem process_failure_stops_the_batch:
  assumes "0 \<le> m" "run E m sched = Some s" "(xs, Some e) \<in> set (procs (trace s))"
  shows "(\<exists>ps. procs (trace s) = ps @ [(xs, Some e)] \<and> all_ok ps \<and>
            length ps < length (seals (trace s)) \<and> xs = buf (seals (trace s) ! length ps) \<and>
            (\<forall>sched' s'. exec E m sched' s = Some s' \<longrightarrow>
               procs (trace s') = procs (trace s) \<and>
               take (Suc (length ps)) (seals (trace s')) = take (Suc (length ps)) (seals (trace s)) \<and>
               emits (trace s') = concat (map cookies (take (length ps) (seals (trace s)))) \<and>
               map fst (commits (trace s')) =
                 take (length (commits (trace s'))) (emits (trace s')) \<and>
               (\<forall>r. m_pc s' = M_Ret r \<longrightarrow>
                  (\<exists>agg. r = Some agg \<and> errors_Is agg ErrProcessFailed)))) \<and>
         (\<exists>sched' s' r. exec E m sched' s = Some s' \<and> m_pc s' = M_Ret r) \<and>
         always_returns E m"
proof -
  from run_inv_all[OF assms(1,2)] have ia: "inv_all E m s" .
  then have ip: "inv_proc E s" by (simp add: inv_all_def)
  from proc_failed_state[OF ip assms(3)] obtain ps where
    ps: "procs (trace s) = ps @ [(xs, Some e)]" "all_ok ps"
      "xs = buf (seals (trace s) ! length ps)"
    by blast
  have len: "length ps < length (seals (trace s))" using ip ps(1) by (simp add: inv_proc_def)
  have 3: "procs (trace s') = procs (trace s) \<and>
           take (Suc (length ps)) (seals (trace s')) = take (Suc (length ps)) (seals (trace s)) \<and>
           emits (trace s') = concat (map cookies (take (length ps) (seals (trace s)))) \<and>
           map fst (commits (trace s')) = take (length (commits (trace s'))) (emits (trace s')) \<and>
           (\<forall>r. m_pc s' = M_Ret r \<longrightarrow> (\<exists>agg. r = Some agg \<and> errors_Is agg ErrProcessFailed))"
    if ex: "exec E m sched' s = Some s'" for sched' s'
  proof -
    note r' = run_exec[OF assms(2) ex]
    from run_inv_all[OF assms(1) r'] have ip': "inv_proc E s'" and icm': "inv_commit E s'"
      by (simp_all add: inv_all_def)
    from exec_trace_prefix[OF ex] obtain zs where zs: "trace s' = trace s @ zs"
      by (auto simp: prefix_def)
    then have mem: "(xs, Some e) \<in> set (procs (trace s'))" using assms(3) by simp
    from proc_failed_state[OF ip' mem] obtain ps' where
      ps': "procs (trace s') = ps' @ [(xs, Some e)]" "all_ok ps'"
        "ended (p_tail (p_pc s')) = Some (Failed (Errorf_wv ErrProcessFailed e))"
        "emits (trace s') = concat (map cookies (take (length ps') (seals (trace s'))))"
      by blast
    have "prefix (procs (trace s)) (procs (trace s'))" using zs by simp
    from failure_is_final[OF ps(1) ps'(1,2) this] have p: "procs (trace s') = procs (trace s)" .
    then have l: "length ps' = length ps" using ps(1) ps'(1) by simp
    have tk: "take (Suc (length ps)) (seals (trace s')) = take (Suc (length ps)) (seals (trace s))"
      using zs len by simp
    have "take (length ps) (seals (trace s')) = take (length ps) (seals (trace s))"
      using zs len by simp
    then have em: "emits (trace s') = concat (map cookies (take (length ps) (seals (trace s))))"
      using ps'(4) l by simp
    have cm: "map fst (commits (trace s')) = take (length (commits (trace s'))) (emits (trace s'))"
      using icm' by (simp add: inv_commit_def)
    have res: "\<exists>agg. r = Some agg \<and> errors_Is agg ErrProcessFailed" if "m_pc s' = M_Ret r" for r
    proof -
      note rr = Run_result[OF assms(1) r' that]
      from rr ps'(3) have "r \<noteq> None" by auto
      then obtain agg where "r = Some agg" by auto
      then show ?thesis using rr ps'(3) by auto
    qed
    show ?thesis using p tk em cm res by blast
  qed
  show ?thesis using ps len 3 completes[OF assms(1) ia] always_returns[OF assms(1)] by blast
qed

theorem process_failure_stops_the_batch_witness:
  "\<exists>s agg. run process_fails 2 process_fails_schedule = Some s \<and>
     procs (trace s) = [([''x'', ''y''], Some (Cause ''boom''))] \<and>
     seals (trace s) = [Batch [''x'', ''y''] [1], Batch [''z''] [2]] \<and>
     emits (trace s) = [] \<and> commits (trace s) = [] \<and>
     m_pc s = M_Ret (Some agg) \<and> errors_Is agg ErrProcessFailed \<and>
     always_returns process_fails 2"
proof -
  obtain s where s: "run process_fails 2 process_fails_schedule = Some s"
    "m_pc s = M_Ret (Some (Join [Errorf_wv ErrProcessFailed (Cause ''boom'')]))"
    "trace s = [ENext ([''x'', ''y''], 1, None), ENext ([''z''], 2, None),
                   ESeal (Batch [''x'', ''y''] [1]),
                   ENext ([], 0, Some ErrEofCommitCookie), ESeal (Batch [''z''] [2]),
                   EProcess [''x'', ''y''] (Some (Cause ''boom''))]"
    using process_fails_run by (auto split: option.splits)
  have m: "(0::int) \<le> 2" by simp
  have p: "procs (trace s) = [([''x'', ''y''], Some (Cause ''boom''))]"
    and se: "seals (trace s) = [Batch [''x'', ''y''] [1], Batch [''z''] [2]]"
    by (simp_all add: s(3) procs_def seals_def)
  then have mem: "([''x'', ''y''], Some (Cause ''boom'')) \<in> set (procs (trace s))" by simp
  note t = process_failure_stops_the_batch[OF m s(1) mem]
  have e0: "exec process_fails 2 [] s = Some s" by simp
  from t obtain ps where ps: "procs (trace s) = ps @ [([''x'', ''y''], Some (Cause ''boom''))]"
    and al: "\<forall>sched' s'. exec process_fails 2 sched' s = Some s' \<longrightarrow>
               emits (trace s') = concat (map cookies (take (length ps) (seals (trace s)))) \<and>
               map fst (commits (trace s')) =
                 take (length (commits (trace s'))) (emits (trace s')) \<and>
               (\<forall>r. m_pc s' = M_Ret r \<longrightarrow>
                  (\<exists>agg. r = Some agg \<and> errors_Is agg ErrProcessFailed))"
    by blast
  from al e0 have a: "emits (trace s) = concat (map cookies (take (length ps) (seals (trace s))))"
    "map fst (commits (trace s)) = take (length (commits (trace s))) (emits (trace s))"
    "\<forall>r. m_pc s = M_Ret r \<longrightarrow> (\<exists>agg. r = Some agg \<and> errors_Is agg ErrProcessFailed)"
    by blast+
  from ps p have "ps = []" by simp
  then have em: "emits (trace s) = []" using a(1) by simp
  then have cm: "commits (trace s) = []" using a(2) by simp
  from a(3) s(2) obtain agg where "Some (Join [Errorf_wv ErrProcessFailed (Cause ''boom'')]) = Some agg"
    "errors_Is agg ErrProcessFailed" by blast
  moreover from t have "always_returns process_fails 2" by blast
  ultimately show ?thesis using s(1,2) p se em cm by auto
qed

text \<open>
  C7.  Once a \<^verbatim>\<open>Commit\<close> call has failed, on every schedule and in every continuation
  of the run: the log of \<^verbatim>\<open>Commit\<close> calls stays as it is, so the failed call is the
  last one, the cookies acknowledged before it stay acknowledged, and no cookie is
  acknowledged after it, whatever the cookie channel holds and whatever is emitted
  later; the cookies of the \<^verbatim>\<open>Commit\<close> calls are the first cookies emitted, in the order
  of emission, and all the calls before the failed one succeeded; and when \<^verbatim>\<open>Pipe\<close> has
  returned, it has returned an error that matches \<^verbatim>\<open>ErrCommitFailed\<close>.  The run can be
  continued until \<^verbatim>\<open>Pipe\<close> returns, and \<^verbatim>\<open>Pipe\<close> returns on every schedule.
\<close>

theorem commit_failure_stops_acknowledging:
  assumes "0 \<le> m" "run E m sched = Some s" "(c, Some e) \<in> set (commits (trace s))"
  shows "(\<exists>cs. commits (trace s) = cs @ [(c, Some e)] \<and> all_ok cs \<and>
            map fst (cs @ [(c, Some e)]) = take (Suc (length cs)) (emits (trace s)) \<and>
            cookiesCh s = drop (Suc (length cs)) (emits (trace s)) \<and>
            (\<forall>sched' s'. exec E m sched' s = Some s' \<longrightarrow>
               commits (trace s') = commits (trace s) \<and>
               prefix (emits (trace s)) (emits (trace s')) \<and>
               (\<forall>r. m_pc s' = M_Ret r \<longrightarrow>
                  (\<exists>agg. r = Some agg \<and> errors_Is agg ErrCommitFailed)))) \<and>
         (\<exists>sched' s' r. exec E m sched' s = Some s' \<and> m_pc s' = M_Ret r) \<and>
         always_returns E m"
proof -
  from run_inv_all[OF assms(1,2)] have ia: "inv_all E m s" .
  then have icm: "inv_commit E s" by (simp add: inv_all_def)
  from commit_failed_state[OF icm assms(3)] obtain cs where
    cs: "commits (trace s) = cs @ [(c, Some e)]" "all_ok cs"
      "ended (c_tail (c_pc s)) = Some (Failed (Errorf_wv ErrCommitFailed e))"
      "map fst (commits (trace s)) = take (Suc (length cs)) (emits (trace s))"
    by blast
  from cs(3) obtain t where t: "c_pc s = C_After t" by (cases "c_pc s") (auto simp: ended_def)
  have ch: "cookiesCh s = drop (Suc (length cs)) (emits (trace s))"
    using icm cs(1) t by (simp add: inv_commit_def)
  have 3: "commits (trace s') = commits (trace s) \<and> prefix (emits (trace s)) (emits (trace s')) \<and>
           (\<forall>r. m_pc s' = M_Ret r \<longrightarrow> (\<exists>agg. r = Some agg \<and> errors_Is agg ErrCommitFailed))"
    if ex: "exec E m sched' s = Some s'" for sched' s'
  proof -
    note r' = run_exec[OF assms(2) ex]
    from run_inv_all[OF assms(1) r'] have icm': "inv_commit E s'" by (simp add: inv_all_def)
    from exec_trace_prefix[OF ex] obtain zs where zs: "trace s' = trace s @ zs"
      by (auto simp: prefix_def)
    then have mem: "(c, Some e) \<in> set (commits (trace s'))" using assms(3) by simp
    from commit_failed_state[OF icm' mem] obtain cs' where
      cs': "commits (trace s') = cs' @ [(c, Some e)]" "all_ok cs'"
        "ended (c_tail (c_pc s')) = Some (Failed (Errorf_wv ErrCommitFailed e))"
      by blast
    have "prefix (commits (trace s)) (commits (trace s'))" using zs by simp
    from failure_is_final[OF cs(1) cs'(1,2) this] have p: "commits (trace s') = commits (trace s)" .
    have em: "prefix (emits (trace s)) (emits (trace s'))" using zs by simp
    have res: "\<exists>agg. r = Some agg \<and> errors_Is agg ErrCommitFailed" if "m_pc s' = M_Ret r" for r
    proof -
      note rr = Run_result[OF assms(1) r' that]
      from rr cs'(3) have "r \<noteq> None" by auto
      then obtain agg where "r = Some agg" by auto
      then show ?thesis using rr cs'(3) by auto
    qed
    show ?thesis using p em res by blast
  qed
  have 4: "map fst (cs @ [(c, Some e)]) = take (Suc (length cs)) (emits (trace s))"
    using cs(1,4) by simp
  show ?thesis using cs(1,2) 4 ch 3 completes[OF assms(1) ia] always_returns[OF assms(1)] by blast
qed

lemma commit_fails_run:
  "(case run commit_fails 3 commit_fails_schedule of
      None \<Rightarrow> False
    | Some s \<Rightarrow>
        commits (trace s) = [(1, None), (2, Some (Cause ''nack''))] \<and>
        emits (trace s) = [1, 2, 3] \<and>
        (case exec commit_fails 3 commit_fails_rest s of
           None \<Rightarrow> False
         | Some s' \<Rightarrow>
             m_pc s' = M_Ret (Some (Join [Errorf_wv ErrCommitFailed (Cause ''nack'')]))))"
  by code_simp

theorem commit_failure_stops_acknowledging_witness:
  "\<exists>s s' agg. run commit_fails 3 commit_fails_schedule = Some s \<and>
     commits (trace s) = [(1, None), (2, Some (Cause ''nack''))] \<and>
     emits (trace s) = [1, 2, 3] \<and> cookiesCh s = [3] \<and>
     exec commit_fails 3 commit_fails_rest s = Some s' \<and>
     commits (trace s') = [(1, None), (2, Some (Cause ''nack''))] \<and>
     m_pc s' = M_Ret (Some agg) \<and> errors_Is agg ErrCommitFailed \<and>
     always_returns commit_fails 3"
proof -
  obtain s s' where s: "run commit_fails 3 commit_fails_schedule = Some s"
    "commits (trace s) = [(1, None), (2, Some (Cause ''nack''))]"
    "emits (trace s) = [1, 2, 3]"
    "exec commit_fails 3 commit_fails_rest s = Some s'"
    "m_pc s' = M_Ret (Some (Join [Errorf_wv ErrCommitFailed (Cause ''nack'')]))"
    using commit_fails_run by (auto split: option.splits)
  have m: "(0::int) \<le> 3" by simp
  have mem: "(2, Some (Cause ''nack'')) \<in> set (commits (trace s))" by (simp add: s(2))
  note t = commit_failure_stops_acknowledging[OF m s(1) mem]
  from t obtain cs where cs: "commits (trace s) = cs @ [(2, Some (Cause ''nack''))]"
    "cookiesCh s = drop (Suc (length cs)) (emits (trace s))"
    and al: "\<forall>sched' s'. exec commit_fails 3 sched' s = Some s' \<longrightarrow>
               commits (trace s') = commits (trace s) \<and>
               (\<forall>r. m_pc s' = M_Ret r \<longrightarrow>
                  (\<exists>agg. r = Some agg \<and> errors_Is agg ErrCommitFailed))"
    by blast
  from cs(1) s(2) have "cs = [(1, None)]" by simp
  then have ch: "cookiesCh s = [3]" using cs(2) s(3) by simp
  from al s(4) have a: "commits (trace s') = commits (trace s)"
    "\<forall>r. m_pc s' = M_Ret r \<longrightarrow> (\<exists>agg. r = Some agg \<and> errors_Is agg ErrCommitFailed)"
    by blast+
  from a(2) s(5) obtain agg where "Some (Join [Errorf_wv ErrCommitFailed (Cause ''nack'')]) = Some agg"
    "errors_Is agg ErrCommitFailed" by blast
  moreover from t have "always_returns commit_fails 3" by blast
  ultimately show ?thesis using s ch a(1) by auto
qed

section \<open>The batches of a stream\<close>

lemma prefix_butlast: "prefix (butlast xs) xs"
  by (metis append_butlast_last_id butlast.simps(1) prefixI prefix_order.order_refl)

lemma normal_prefix_of_script:
  assumes "prefix rs (nexts E @ [([], 0, Some ErrEofCommitCookie)])" "list_all normal rs"
  shows "prefix rs (nexts E)"
proof -
  from assms(1) have "prefix rs (nexts E) \<or> rs = nexts E @ [([], 0, Some ErrEofCommitCookie)]"
    by (auto simp add: prefix_snoc)
  moreover have "\<not> list_all normal (nexts E @ [([], 0, Some ErrEofCommitCookie)])"
    by (simp add: normal_def)
  ultimately show ?thesis using assms(2) by auto
qed

text \<open>
  The batches sealed so far come from feeding normal fetches, which are the first
  ones of the producer, to the loop body.
\<close>

lemma seals_shape:
  assumes "inv_fetch E m s"
  shows "\<exists>rs. prefix rs (fetches (trace s)) \<and> prefix rs (nexts E) \<and> list_all normal rs \<and>
           (seals (trace s) = fst (fed m rs) \<or> seals (trace s) = final_batches m rs)"
proof -
  let ?fs = "fetches (trace s)" and ?ss = "seals (trace s)"
  from assms have ok: "fetch_ok m ?fs ?ss (f_buf s) (f_cookies s) (f_pc s)"
    and "?fs @ script s = nexts E \<or> ?fs = nexts E @ [([], 0, Some ErrEofCommitCookie)]"
    by (auto simp: inv_fetch_def)
  then have sc: "prefix ?fs (nexts E @ [([], 0, Some ErrEofCommitCookie)])"
    by (metis prefixI prefix_order.order_refl append.assoc)
  have "\<exists>rs. prefix rs ?fs \<and> list_all normal rs \<and>
           (?ss = fst (fed m rs) \<or> ?ss = final_batches m rs)"
  proof (cases "f_pc s")
    case F_Start
    then show ?thesis using ok by (intro exI[of _ "[]"]) simp
  next
    case F_Select
    then show ?thesis using ok by (intro exI[of _ ?fs]) simp
  next
    case F_SendEof
    then show ?thesis using ok by (intro exI[of _ "butlast ?fs"]) (simp add: prefix_butlast)
  next
    case (F_SendFull items cookie)
    then show ?thesis using ok by (intro exI[of _ "butlast ?fs"]) (simp add: prefix_butlast)
  next
    case (F_After t)
    show ?thesis
    proof (cases "exit_of t")
      case Completed
      then show ?thesis using ok F_After
        by (intro exI[of _ "butlast ?fs"]) (simp add: prefix_butlast)
    next
      case Cancelled
      then show ?thesis using ok F_After by auto
    next
      case (Failed e)
      then show ?thesis using ok F_After
        by (intro exI[of _ "butlast ?fs"]) (simp add: prefix_butlast)
    qed
  qed
  then obtain rs where rs: "prefix rs ?fs" "list_all normal rs"
    "?ss = fst (fed m rs) \<or> ?ss = final_batches m rs" by blast
  from rs(1) sc have "prefix rs (nexts E @ [([], 0, Some ErrEofCommitCookie)])"
    by (rule prefix_order.trans)
  from normal_prefix_of_script[OF this rs(2)] show ?thesis using rs by blast
qed

text \<open>Feeding fetches without items seals nothing and collects the cookies.\<close>

lemma fed_no_items:
  assumes "0 \<le> m" "list_all (\<lambda>r. fst r = []) rs"
  shows "fed m rs = ([], [], map (\<lambda>r. fst (snd r)) rs)"
  using assms(2)
proof (induction rs rule: rev_induct)
  case Nil
  then show ?case by simp
next
  case (snoc r rs)
  obtain items cookie err where r: "r = (items, cookie, err)" by (cases r)
  then show ?case using snoc assms(1) by simp
qed


lemma within_mono: "within m rs bf cks \<Longrightarrow> within m (rs @ [r]) bf cks"
  by (auto simp: within_def)

lemma fed_within:
  assumes "0 \<le> m" "fed m rs = (ss, bf, cks)"
  shows "within m rs bf cks \<and> (\<forall>b \<in> set ss. within m rs (buf b) (cookies b))"
  using assms(2)
proof (induction rs arbitrary: ss bf cks rule: rev_induct)
  case Nil
  then show ?case using assms(1) by (simp add: within_def)
next
  case (snoc r rs)
  obtain items cookie err where r: "r = (items, cookie, err)" by (cases r)
  obtain ss0 bf0 cks0 where f: "fed m rs = (ss0, bf0, cks0)" by (cases "fed m rs")
  note ih = snoc(1)[OF f]
  have old: "within m (rs @ [r]) bf0 cks0" "\<forall>b \<in> set ss0. within m (rs @ [r]) (buf b) (cookies b)"
    using ih within_mono by blast+
  show ?case
  proof (cases "int (length bf0) + int (length items) > m")
    case True
    then have e: "ss = ss0 @ [Batch bf0 cks0]" "bf = items" "cks = [cookie]"
      using snoc(2) r f by simp_all
    have "within m (rs @ [r]) items [cookie]"
    proof (cases "int (length items) \<le> m")
      case True
      then show ?thesis by (simp add: within_def)
    next
      case False
      then show ?thesis using r by (simp add: within_def)
    qed
    then show ?thesis using e old by auto
  next
    case False
    then have e: "ss = ss0" "bf = bf0 @ items" "cks = cks0 @ [cookie]"
      using snoc(2) r f by simp_all
    have "within m (rs @ [r]) (bf0 @ items) (cks0 @ [cookie])"
      using False by (simp add: within_def)
    then show ?thesis using e old by auto
  qed
qed

lemma final_batches_cases:
  obtains ss bf cks where "fed m rs = (ss, bf, cks)" "bf \<noteq> []" "final_batches m rs = ss @ [Batch bf cks]"
  | ss cks where "fed m rs = (ss, [], cks)" "final_batches m rs = ss"
proof (cases "fed m rs")
  case (fields ss bf cks)
  then show ?thesis using that by (cases "bf = []") (auto simp: final_batches_def)
qed

lemma normal_prefix_takeWhile:
  assumes "prefix rs xs" "list_all normal rs"
  shows "prefix rs (takeWhile normal xs)"
proof -
  from assms(1) obtain zs where "xs = rs @ zs" by (auto simp: prefix_def)
  moreover have "takeWhile normal (rs @ zs) = rs @ takeWhile normal zs"
    using assms(2) by (intro takeWhile_append2) (simp add: list_all_iff)
  ultimately show ?thesis by simp
qed

lemma is_eof_not_normal: "is_eof (snd (snd r)) \<Longrightarrow> \<not> normal r"
  by (cases "snd (snd r)") (auto simp: is_eof_def normal_def)

lemma is_eof_sentinel [simp]: "is_eof (Some ErrEofCommitCookie)"
  by (simp add: is_eof_def)

text \<open>When the fetch stage has seen end-of-stream, it has made all the fetches before it.\<close>

lemma stream_fetched:
  assumes "fs @ sc = nexts E \<or> sc = [] \<and> fs = nexts E @ [([], 0, Some ErrEofCommitCookie)]"
    "fs \<noteq> []" "list_all normal (butlast fs)" "\<not> normal (last fs)"
  shows "butlast fs = takeWhile normal (nexts E)"
proof -
  have fs: "fs = butlast fs @ [last fs]" using assms(2) by simp
  from assms(1) show ?thesis
  proof
    assume "fs @ sc = nexts E"
    then have "nexts E = butlast fs @ (last fs # sc)" using fs by (metis append.assoc append_Cons append_Nil)
    moreover have "takeWhile normal (butlast fs @ (last fs # sc)) =
        butlast fs @ takeWhile normal (last fs # sc)"
      using assms(3) by (intro takeWhile_append2) (simp add: list_all_iff)
    ultimately show ?thesis using assms(4) by simp
  next
    assume "sc = [] \<and> fs = nexts E @ [([], 0, Some ErrEofCommitCookie)]"
    then have "butlast fs = nexts E" by simp
    moreover have "takeWhile normal (butlast fs) = butlast fs"
      using assms(3) by (simp add: list_all_iff takeWhile_eq_all_conv)
    ultimately show ?thesis by metis
  qed
qed

lemma fetch_completed:
  assumes "inv_fetch E m s" "ended (f_tail (f_pc s)) = Some Completed"
  shows "butlast (fetches (trace s)) = takeWhile normal (nexts E) \<and>
         fetches (trace s) \<noteq> [] \<and> is_eof (snd (snd (last (fetches (trace s))))) \<and>
         seals (trace s) = final_batches m (takeWhile normal (nexts E))"
proof -
  from assms(2) obtain t where t: "f_pc s = F_After t" "exit_of t = Completed"
    by (cases "f_pc s") (auto simp: ended_def)
  let ?fs = "fetches (trace s)"
  from assms(1) t have d: "?fs \<noteq> []" "list_all normal (butlast ?fs)"
    "is_eof (snd (snd (last ?fs)))" "seals (trace s) = final_batches m (butlast ?fs)"
    and sc: "?fs @ script s = nexts E \<or>
             script s = [] \<and> ?fs = nexts E @ [([], 0, Some ErrEofCommitCookie)]"
    by (simp_all add: inv_fetch_def)
  from stream_fetched[OF sc d(1,2) is_eof_not_normal[OF d(3)]] show ?thesis using d by simp
qed

lemma fetch_failed_script:
  assumes "inv_fetch E m s" "ended (f_tail (f_pc s)) = Some (Failed e)"
  shows "\<exists>r \<in> set (nexts E). \<not> normal r \<and> \<not> is_eof (snd (snd r))"
proof -
  from assms(2) obtain t where t: "f_pc s = F_After t" "exit_of t = Failed e"
    by (cases "f_pc s") (auto simp: ended_def)
  let ?fs = "fetches (trace s)"
  from assms(1) t have d: "?fs \<noteq> []" "\<exists>e'. snd (snd (last ?fs)) = Some e' \<and> \<not> is_eof (Some e')"
    and sc: "?fs @ script s = nexts E \<or>
             script s = [] \<and> ?fs = nexts E @ [([], 0, Some ErrEofCommitCookie)]"
    by (auto simp add: inv_fetch_def)
  have "last ?fs \<in> set ?fs" using d(1) by simp
  moreover have "last ?fs \<noteq> ([], 0, Some ErrEofCommitCookie)" using d(2) by auto
  moreover have "set ?fs \<subseteq> set (nexts E) \<union> {([], 0, Some ErrEofCommitCookie)}"
  proof -
    from sc have "set ?fs \<subseteq> set (nexts E) \<or> set ?fs = set (nexts E) \<union> {([], 0, Some ErrEofCommitCookie)}"
      by (metis set_append Un_upper1 list.simps(15) empty_set Un_insert_right sup_bot.right_neutral)
    then show ?thesis by blast
  qed
  ultimately have "last ?fs \<in> set (nexts E)" by auto
  then show ?thesis using d(2) by (auto simp: normal_def intro!: bexI[of _ "last ?fs"])
qed

text \<open>
  The batches sealed so far: those the loop body seals on some first fetches of the
  stream, or, once end-of-stream is seen, those of the whole stream with the last
  buffer.
\<close>

lemma seals_of_stream:
  assumes "inv_fetch E m s"
  shows "(\<exists>rs. prefix rs (takeWhile normal (nexts E)) \<and> seals (trace s) = fst (fed m rs)) \<or>
         ended (f_tail (f_pc s)) = Some Completed \<and>
         seals (trace s) = final_batches m (takeWhile normal (nexts E))"
proof (cases "ended (f_tail (f_pc s)) = Some Completed")
  case True
  then show ?thesis using fetch_completed[OF assms] by simp
next
  case False
  let ?fs = "fetches (trace s)" and ?ss = "seals (trace s)"
  from assms have ok: "fetch_ok m ?fs ?ss (f_buf s) (f_cookies s) (f_pc s)"
    and "?fs @ script s = nexts E \<or> ?fs = nexts E @ [([], 0, Some ErrEofCommitCookie)]"
    by (auto simp: inv_fetch_def)
  then have sc: "prefix ?fs (nexts E @ [([], 0, Some ErrEofCommitCookie)])"
    by (metis prefixI prefix_order.order_refl append.assoc)
  have "\<exists>rs. prefix rs ?fs \<and> list_all normal rs \<and> ?ss = fst (fed m rs)"
  proof (cases "f_pc s")
    case F_Start
    then show ?thesis using ok by (intro exI[of _ "[]"]) simp
  next
    case F_Select
    then show ?thesis using ok by (intro exI[of _ ?fs]) simp
  next
    case F_SendEof
    then show ?thesis using ok by (intro exI[of _ "butlast ?fs"]) (simp add: prefix_butlast)
  next
    case (F_SendFull items cookie)
    then show ?thesis using ok by (intro exI[of _ "butlast ?fs"]) (simp add: prefix_butlast)
  next
    case (F_After t)
    show ?thesis
    proof (cases "exit_of t")
      case Completed
      then show ?thesis using False F_After by (simp add: ended_def)
    next
      case Cancelled
      then show ?thesis using ok F_After by auto
    next
      case (Failed e)
      then show ?thesis using ok F_After
        by (intro exI[of _ "butlast ?fs"]) (simp add: prefix_butlast)
    qed
  qed
  then obtain rs where rs: "prefix rs ?fs" "list_all normal rs" "?ss = fst (fed m rs)" by blast
  from rs(1) sc have "prefix rs (nexts E @ [([], 0, Some ErrEofCommitCookie)])"
    by (rule prefix_order.trans)
  from normal_prefix_takeWhile[OF normal_prefix_of_script[OF this rs(2)] rs(2)] rs(3)
  show ?thesis by blast
qed

text \<open>
  The cookies emitted so far are cookies of batches whose \<^verbatim>\<open>Process\<close> call has
  succeeded; \<open>k\<close> counts these calls.
\<close>

lemma concat_take_prefix:
  "k \<le> n \<Longrightarrow> prefix (concat (map f (take k xs))) (concat (map f (take n xs)))"
proof -
  assume "k \<le> n"
  then have "take n xs = take k xs @ drop k (take n xs)"
    by (metis append_take_drop_id min.absorb1 take_take)
  then have "concat (map f (take n xs)) = concat (map f (take k xs)) @ concat (map f (drop k (take n xs)))"
    by (metis concat_append map_append)
  then show ?thesis by simp
qed

lemma emits_bound:
  assumes "inv_proc E s"
  shows "\<exists>k \<le> length (procs (trace s)). all_ok (take k (procs (trace s))) \<and>
           (k = length (procs (trace s)) \<or>
            k + 1 = length (procs (trace s)) \<and> (\<exists>e. snd (last (procs (trace s))) = Some e)) \<and>
           prefix (emits (trace s)) (concat (map cookies (take k (seals (trace s)))))"
proof -
  let ?ps = "procs (trace s)" and ?ss = "seals (trace s)" and ?es = "emits (trace s)"
  from assms have ok: "proc_ok ?ss ?ps ?es (p_pc s)" by (simp add: inv_proc_def)
  have full: ?thesis if "all_ok ?ps" "prefix ?es (concat (map cookies (take (length ?ps) ?ss)))"
    using that by (intro exI[of _ "length ?ps"]) simp
  show ?thesis
  proof (cases "p_pc s")
    case P_Read
    then show ?thesis using ok by (intro full) simp_all
  next
    case (P_Got b)
    then show ?thesis using ok by (intro full) simp_all
  next
    case (P_Emit cs)
    then show ?thesis using ok by (intro full) (auto intro: prefixI[OF sym])
  next
    case (P_After t)
    show ?thesis
    proof (cases "exit_of t")
      case Completed
      then show ?thesis using ok P_After by (intro full) simp_all
    next
      case Cancelled
      then show ?thesis using ok P_After by (intro full) simp_all
    next
      case (Failed e)
      then have d: "?ps \<noteq> []" "all_ok (butlast ?ps)" "\<exists>e'. snd (last ?ps) = Some e'"
        "?es = concat (map cookies (take (length ?ps - 1) ?ss))"
        using ok P_After by auto
      have "take (length ?ps - 1) ?ps = butlast ?ps" by (simp add: butlast_conv_take)
      then show ?thesis using d by (intro exI[of _ "length ?ps - 1"]) (auto simp: Suc_leI)
    qed
  qed
qed

text \<open>A run that returns nil has sealed, processed and acknowledged the whole stream.\<close>

lemma all_ok_map: "all_ok log \<Longrightarrow> log = map (\<lambda>x. (x, None)) (map fst log)"
  by (induction log) (auto simp: all_ok_def)

lemma success_run:
  assumes "0 \<le> m" "run E m sched = Some s" "m_pc s = M_Ret None"
  shows "butlast (fetches (trace s)) = takeWhile normal (nexts E) \<and>
         seals (trace s) = final_batches m (takeWhile normal (nexts E)) \<and>
         procs (trace s) = map (\<lambda>b. (buf b, None)) (seals (trace s)) \<and>
         emits (trace s) = concat (map cookies (seals (trace s))) \<and>
         commits (trace s) = map (\<lambda>c. (c, None)) (emits (trace s))"
proof -
  from run_inv_all[OF assms(1,2)] have i: "inv_fetch E m s" "inv_proc E s" "inv_commit E s"
    by (simp_all add: inv_all_def)
  from Run_result[OF assms] have e: "ended (f_tail (f_pc s)) = Some Completed"
    "ended (p_tail (p_pc s)) = Some Completed" "ended (c_tail (c_pc s)) = Some Completed"
    by simp_all
  let ?ps = "procs (trace s)" and ?ss = "seals (trace s)" and ?es = "emits (trace s)"
    and ?cs = "commits (trace s)"
  from e(2) obtain t where t: "p_pc s = P_After t" "exit_of t = Completed"
    by (cases "p_pc s") (auto simp: ended_def)
  from i(2) t have p: "all_ok ?ps" "length ?ps = length ?ss" "?es = concat (map cookies ?ss)"
    "map fst ?ps = map buf (take (length ?ps) ?ss)"
    by (simp_all add: inv_proc_def)
  from e(3) obtain t' where t': "c_pc s = C_After t'" "exit_of t' = Completed"
    by (cases "c_pc s") (auto simp: ended_def)
  from i(3) t' have c: "all_ok ?cs" "length ?cs = length ?es"
    "map fst ?cs = take (length ?cs) ?es"
    by (simp_all add: inv_commit_def)
  have "?ps = map (\<lambda>x. (x, None)) (map buf ?ss)" using all_ok_map[OF p(1)] p(2,4) by simp
  then have 1: "?ps = map (\<lambda>b. (buf b, None)) ?ss" by (simp add: comp_def)
  have 2: "?cs = map (\<lambda>c. (c, None)) ?es" using all_ok_map[OF c(1)] c(2,3) by simp
  show ?thesis using fetch_completed[OF i(1) e(1)] 1 2 p(3) by simp
qed

text \<open>With collaborators that never fail, \<^verbatim>\<open>Pipe\<close> returns nil.\<close>

lemma calls_ok_last:
  assumes "calls_ok f log" "log \<noteq> []"
  shows "snd (last log) = f (map fst (butlast log)) (fst (last log))"
proof -
  have "length log - 1 < length log" using assms(2) by simp
  then have "snd (log ! (length log - 1)) =
      f (map fst (take (length log - 1) log)) (fst (log ! (length log - 1)))"
    using assms(1) unfolding calls_ok_def by blast
  then show ?thesis using assms(2) by (simp add: last_conv_nth butlast_conv_take)
qed

lemma proc_failed_call:
  assumes "inv_proc E s" "ended (p_tail (p_pc s)) = Some (Failed e)"
  shows "\<exists>h xs e'. process_fn E h xs = Some e' \<and> (xs, Some e') \<in> set (procs (trace s))"
proof -
  from assms(2) obtain t where t: "p_pc s = P_After t" "exit_of t = Failed e"
    by (cases "p_pc s") (auto simp: ended_def)
  let ?ps = "procs (trace s)"
  from assms(1) t have d: "?ps \<noteq> []" "\<exists>e'. snd (last ?ps) = Some e'" "calls_ok (process_fn E) ?ps"
    by (auto simp: inv_proc_def)
  from d(2) obtain e' where e': "snd (last ?ps) = Some e'" by blast
  have "last ?ps \<in> set ?ps" using d(1) by simp
  then have "(fst (last ?ps), Some e') \<in> set ?ps" using e' by (metis prod.collapse)
  then show ?thesis using calls_ok_last[OF d(3,1)] e' by metis
qed

lemma commit_failed_call:
  assumes "inv_commit E s" "ended (c_tail (c_pc s)) = Some (Failed e)"
  shows "\<exists>h c e'. commit_fn E h c = Some e' \<and> (c, Some e') \<in> set (commits (trace s))"
proof -
  from assms(2) obtain t where t: "c_pc s = C_After t" "exit_of t = Failed e"
    by (cases "c_pc s") (auto simp: ended_def)
  let ?cs = "commits (trace s)"
  from assms(1) t have d: "?cs \<noteq> []" "\<exists>e'. snd (last ?cs) = Some e'" "calls_ok (commit_fn E) ?cs"
    by (auto simp: inv_commit_def)
  from d(2) obtain e' where e': "snd (last ?cs) = Some e'" by blast
  have "last ?cs \<in> set ?cs" using d(1) by simp
  then have "(fst (last ?cs), Some e') \<in> set ?cs" using e' by (metis prod.collapse)
  then show ?thesis using calls_ok_last[OF d(3,1)] e' by metis
qed

section \<open>Runs in which nothing fails\<close>

lemma no_items_run:
  "(case run no_items 5 no_items_schedule of
      None \<Rightarrow> False
    | Some s \<Rightarrow>
        m_pc s = M_Ret None \<and>
        trace s = [ENext ([], 7, None), ENext ([], 8, None),
                   ENext ([], 0, Some ErrEofCommitCookie)])"
  by code_simp

lemma oversize_run:
  "(case run oversize 2 oversize_schedule of
      None \<Rightarrow> False
    | Some s \<Rightarrow>
        m_pc s = M_Ret None \<and>
        trace s = [ENext ([''a'', ''b'', ''c''], 1, None), ESeal (Batch [] []),
                   ENext ([], 0, Some ErrEofCommitCookie),
                   ESeal (Batch [''a'', ''b'', ''c''] [1]), EProcess [] None,
                   EProcess [''a'', ''b'', ''c''] None, EEmit 1, ECommit 1 None])"
  by code_simp

lemma two_batches_run:
  "(case run two_batches 2 two_batches_schedule of
      None \<Rightarrow> False
    | Some s \<Rightarrow>
        m_pc s = M_Ret None \<and>
        trace s = [ENext ([''x'', ''y''], 1, None), ENext ([''z''], 2, None),
                   ESeal (Batch [''x'', ''y''] [1]),
                   ENext ([], 0, Some ErrEofCommitCookie), ESeal (Batch [''z''] [2]),
                   EProcess [''x'', ''y''] None, EEmit 1, EProcess [''z''] None, EEmit 2,
                   ECommit 1 None, ECommit 2 None])"
  by code_simp

text \<open>With collaborators that never fail, no stage fails.\<close>

lemma no_stage_fails:
  assumes "inv_fetch E m s" "inv_proc E s" "inv_commit E s"
    "\<forall>r \<in> set (nexts E). normal r \<or> is_eof (snd (snd r))"
    "\<forall>xs e. (xs, Some e) \<notin> set (procs (trace s))"
    "\<forall>c e. (c, Some e) \<notin> set (commits (trace s))"
  shows "\<not> (\<exists>e. ended (f_tail (f_pc s)) = Some (Failed e) \<or>
               ended (p_tail (p_pc s)) = Some (Failed e) \<or>
               ended (c_tail (c_pc s)) = Some (Failed e))"
  using fetch_failed_script[OF assms(1)] proc_failed_call[OF assms(2)]
    commit_failed_call[OF assms(3)] assms(4,5,6)
  by blast

lemma fetched_prefix:
  assumes "inv_fetch E m s" "list_all normal (fetches (trace s))"
  shows "prefix (fetches (trace s)) (takeWhile normal (nexts E))"
proof -
  from assms(1) have
    "fetches (trace s) @ script s = nexts E \<or>
     fetches (trace s) = nexts E @ [([], 0, Some ErrEofCommitCookie)]"
    by (auto simp: inv_fetch_def)
  then have "prefix (fetches (trace s)) (nexts E @ [([], 0, Some ErrEofCommitCookie)])"
    by (metis prefixI prefix_order.order_refl append.assoc)
  from normal_prefix_takeWhile[OF normal_prefix_of_script[OF this assms(2)] assms(2)]
  show ?thesis .
qed

lemma prefix_list_all: "prefix rs xs \<Longrightarrow> \<forall>r \<in> set xs. P r \<Longrightarrow> list_all P rs"
  by (auto simp: prefix_def list_all_iff)

section \<open>Fetches without items\<close>

text \<open>
  C10.  If the producer never fails and every fetch before end-of-stream returns no
  item, then on every schedule: no batch is ever sealed or handed to the process
  stage, \<^verbatim>\<open>Process\<close> is never called, no cookie is ever emitted or acknowledged;
  between two fetches the buffer is empty and the cookies collected are those of all
  the fetches made; when \<^verbatim>\<open>Pipe\<close> has returned, it has returned nil, after fetching
  the whole stream.  The run can be continued until \<^verbatim>\<open>Pipe\<close> returns, and \<^verbatim>\<open>Pipe\<close>
  returns on every schedule.
\<close>

theorem no_items_no_batch:
  assumes "0 \<le> m" "run E m sched = Some s"
    "\<forall>r \<in> set (nexts E). normal r \<or> is_eof (snd (snd r))"
    "\<forall>r \<in> set (takeWhile normal (nexts E)). fst r = []"
  shows "seals (trace s) = [] \<and> batchCh s = [] \<and> procs (trace s) = [] \<and>
         emits (trace s) = [] \<and> cookiesCh s = [] \<and> commits (trace s) = [] \<and>
         (f_pc s = F_Select \<longrightarrow>
            f_buf s = [] \<and> f_cookies s = map (\<lambda>r. fst (snd r)) (fetches (trace s))) \<and>
         (\<forall>r. m_pc s = M_Ret r \<longrightarrow>
            r = None \<and> butlast (fetches (trace s)) = takeWhile normal (nexts E)) \<and>
         (\<exists>sched' s' r. exec E m sched' s = Some s' \<and> m_pc s' = M_Ret r) \<and>
         always_returns E m"
proof -
  from run_inv_all[OF assms(1,2)] have ia: "inv_all E m s" .
  then have i: "inv_fetch E m s" "inv_proc E s" "inv_commit E s" by (simp_all add: inv_all_def)
  have z: "fed m rs = ([], [], map (\<lambda>r. fst (snd r)) rs)"
    if "prefix rs (takeWhile normal (nexts E))" for rs
    using fed_no_items[OF assms(1) prefix_list_all[OF that assms(4)]] .
  have 1: "seals (trace s) = []"
    using seals_of_stream[OF i(1)] z by (auto simp: final_batches_def)
  have 2: "batchCh s = []" "procs (trace s) = []" using i(2) 1 by (simp_all add: inv_proc_def)
  from emits_bound[OF i(2)] have 3: "emits (trace s) = []" using 1 by auto
  have 4: "cookiesCh s = []" "commits (trace s) = []" using i(3) 3 by (simp_all add: inv_commit_def)
  have 5: "f_buf s = [] \<and> f_cookies s = map (\<lambda>r. fst (snd r)) (fetches (trace s))"
    if "f_pc s = F_Select"
  proof -
    from i(1) that have f: "list_all normal (fetches (trace s))"
      "fed m (fetches (trace s)) = (seals (trace s), f_buf s, f_cookies s)"
      by (simp_all add: inv_fetch_def)
    from z[OF fetched_prefix[OF i(1) f(1)]] f(2) show ?thesis by simp
  qed
  have 6: "r = None \<and> butlast (fetches (trace s)) = takeWhile normal (nexts E)"
    if "m_pc s = M_Ret r" for r
  proof -
    from no_stage_fails[OF i assms(3)] 2(2) 4(2) have
      "\<not> (\<exists>e. ended (f_tail (f_pc s)) = Some (Failed e) \<or>
               ended (p_tail (p_pc s)) = Some (Failed e) \<or>
               ended (c_tail (c_pc s)) = Some (Failed e))"
      by simp
    then have "r = None" using Run_result[OF assms(1,2) that] by blast
    then show ?thesis using success_run[OF assms(1,2)] that by simp
  qed
  show ?thesis
    using 1 2 3 4 5 6 completes[OF assms(1) ia] always_returns[OF assms(1)] by blast
qed

theorem no_items_no_batch_witness:
  "\<exists>s. run no_items 5 no_items_schedule = Some s \<and>
     fetches (trace s) = [([], 7, None), ([], 8, None), ([], 0, Some ErrEofCommitCookie)] \<and>
     seals (trace s) = [] \<and> procs (trace s) = [] \<and> commits (trace s) = [] \<and>
     m_pc s = M_Ret None \<and> always_returns no_items 5"
proof -
  obtain s where s: "run no_items 5 no_items_schedule = Some s" "m_pc s = M_Ret None"
    "trace s = [ENext ([], 7, None), ENext ([], 8, None),
                ENext ([], 0, Some ErrEofCommitCookie)]"
    using no_items_run by (auto split: option.splits)
  have m: "(0::int) \<le> 5" by simp
  have h1: "\<forall>r \<in> set (nexts no_items). normal r \<or> is_eof (snd (snd r))"
    by (simp add: no_items_def normal_def)
  have h2: "\<forall>r \<in> set (takeWhile normal (nexts no_items)). fst r = []"
    by (simp add: no_items_def normal_def)
  note t = no_items_no_batch[OF m s(1) h1 h2]
  have "fetches (trace s) = [([], 7, None), ([], 8, None), ([], 0, Some ErrEofCommitCookie)]"
    by (simp add: s(3) fetches_def)
  then show ?thesis using t s(1,2) by blast
qed

section \<open>The size of a batch\<close>

text \<open>
  C5, as the source has it.  A fetch is never split.  On every schedule, every batch
  sealed and handed to the process stage has at most \<open>m\<close> items, or it is the items
  and the cookie of a single fetch that returned more than \<open>m\<close> items; so, when no
  fetch returns more than \<open>m\<close> items, every batch has at most \<open>m\<close> items.  The batches
  are those the loop body of \<^verbatim>\<open>runNext\<close> seals on the first fetches of the stream
  (with the last buffer, once end-of-stream is seen): a fetch that would overflow the
  buffer starts the next batch.  The arguments of the \<^verbatim>\<open>Process\<close> calls are the items
  of the first batches sealed, in order; a run that returns nil has sealed the
  batches of the whole stream and processed each of them; and \<^verbatim>\<open>Pipe\<close> returns on
  every schedule.
\<close>

theorem batch_within_limit_or_single_fetch:
  assumes "0 \<le> m" "run E m sched = Some s"
  shows "(\<forall>b \<in> set (seals (trace s)).
            int (length (buf b)) \<le> m \<or>
            (\<exists>r \<in> set (takeWhile normal (nexts E)).
               buf b = fst r \<and> cookies b = [fst (snd r)] \<and> int (length (fst r)) > m)) \<and>
         ((\<forall>r \<in> set (takeWhile normal (nexts E)). int (length (fst r)) \<le> m) \<longrightarrow>
            (\<forall>b \<in> set (seals (trace s)). int (length (buf b)) \<le> m)) \<and>
         ((\<exists>rs. prefix rs (takeWhile normal (nexts E)) \<and> seals (trace s) = fst (fed m rs)) \<or>
          seals (trace s) = final_batches m (takeWhile normal (nexts E))) \<and>
         map fst (procs (trace s)) = map buf (take (length (procs (trace s))) (seals (trace s))) \<and>
         (m_pc s = M_Ret None \<longrightarrow>
            seals (trace s) = final_batches m (takeWhile normal (nexts E)) \<and>
            procs (trace s) = map (\<lambda>b. (buf b, None)) (seals (trace s))) \<and>
         always_returns E m"
proof -
  from run_inv_all[OF assms(1,2)] have i: "inv_fetch E m s" "inv_proc E s"
    by (simp_all add: inv_all_def)
  let ?st = "takeWhile normal (nexts E)"
  have w: "within m ?st (buf b) (cookies b)" if "b \<in> set (seals (trace s))" for b
  proof -
    have pre: "within m ?st (buf b) (cookies b)"
      if "prefix rs ?st" "b \<in> set (fst (fed m rs))" for rs
    proof -
      obtain ss bf cks where f: "fed m rs = (ss, bf, cks)" by (cases "fed m rs")
      from fed_within[OF assms(1) f] that(2) f have "within m rs (buf b) (cookies b)" by simp
      moreover have "set rs \<subseteq> set ?st" using that(1) by (auto simp: prefix_def)
      ultimately show ?thesis unfolding within_def by blast
    qed
    from seals_of_stream[OF i(1)] show ?thesis
    proof
      assume "\<exists>rs. prefix rs ?st \<and> seals (trace s) = fst (fed m rs)"
      then show ?thesis using pre that by auto
    next
      assume a: "ended (f_tail (f_pc s)) = Some Completed \<and> seals (trace s) = final_batches m ?st"
      show ?thesis
      proof (cases rule: final_batches_cases[of m ?st])
        case (1 ss bf cks)
        from fed_within[OF assms(1) 1(1)] show ?thesis using a 1(3) that by auto
      next
        case (2 ss cks)
        from fed_within[OF assms(1) 2(1)] show ?thesis using a 2(2) that by auto
      qed
    qed
  qed
  have 1: "\<forall>b \<in> set (seals (trace s)).
            int (length (buf b)) \<le> m \<or>
            (\<exists>r \<in> set ?st. buf b = fst r \<and> cookies b = [fst (snd r)] \<and> int (length (fst r)) > m)"
    using w unfolding within_def by blast
  then have 2: "(\<forall>r \<in> set ?st. int (length (fst r)) \<le> m) \<longrightarrow>
            (\<forall>b \<in> set (seals (trace s)). int (length (buf b)) \<le> m)"
    by fastforce
  have 3: "(\<exists>rs. prefix rs ?st \<and> seals (trace s) = fst (fed m rs)) \<or>
          seals (trace s) = final_batches m ?st"
    using seals_of_stream[OF i(1)] by blast
  have 4: "map fst (procs (trace s)) = map buf (take (length (procs (trace s))) (seals (trace s)))"
    using i(2) by (simp add: inv_proc_def)
  have 5: "m_pc s = M_Ret None \<longrightarrow>
            seals (trace s) = final_batches m ?st \<and>
            procs (trace s) = map (\<lambda>b. (buf b, None)) (seals (trace s))"
    using success_run[OF assms] by simp
  show ?thesis using 1 2 3 4 5 always_returns[OF assms(1)] by blast
qed

lemma oversize_sequential:
  "Pipe_sequential oversize 2 =
     Some ([ENext ([''a'', ''b'', ''c''], 1, None), EProcess [] None, ENext ([], - 1, None),
            EProcess [''a'', ''b'', ''c''] None, ECommit 1 None], None)"
  by code_simp

text \<open>
  The bound of the specification fails for a fetch of three items under the capacity
  limit 2, in the concurrent pipeline and in the sequential one: the empty buffer is
  sealed first, and then the three items are one batch.
\<close>

theorem batch_can_exceed_limit:
  "\<exists>s tr. run oversize 2 oversize_schedule = Some s \<and> m_pc s = M_Ret None \<and>
     seals (trace s) = [Batch [] [], Batch [''a'', ''b'', ''c''] [1]] \<and>
     procs (trace s) = [([], None), ([''a'', ''b'', ''c''], None)] \<and>
     int (length (buf (seals (trace s) ! 1))) > 2 \<and>
     Pipe_sequential oversize 2 = Some (tr, None) \<and>
     procs tr = [([], None), ([''a'', ''b'', ''c''], None)]"
proof -
  obtain s where s: "run oversize 2 oversize_schedule = Some s" "m_pc s = M_Ret None"
    "trace s = [ENext ([''a'', ''b'', ''c''], 1, None), ESeal (Batch [] []),
                   ENext ([], 0, Some ErrEofCommitCookie),
                   ESeal (Batch [''a'', ''b'', ''c''] [1]), EProcess [] None,
                   EProcess [''a'', ''b'', ''c''] None, EEmit 1, ECommit 1 None]"
    using oversize_run by (auto split: option.splits)
  show ?thesis using s(1,2) oversize_sequential by (simp add: s(3) seals_def procs_def)
qed

theorem batch_within_limit_or_single_fetch_witness:
  "\<exists>s. run two_batches 2 two_batches_schedule = Some s \<and> m_pc s = M_Ret None \<and>
     seals (trace s) = [Batch [''x'', ''y''] [1], Batch [''z''] [2]] \<and>
     int (length (buf (seals (trace s) ! 0))) \<le> 2 \<and>
     int (length (buf (seals (trace s) ! 1))) \<le> 2 \<and>
     procs (trace s) = [([''x'', ''y''], None), ([''z''], None)] \<and>
     always_returns two_batches 2"
proof -
  obtain s where s: "run two_batches 2 two_batches_schedule = Some s" "m_pc s = M_Ret None"
    "trace s = [ENext ([''x'', ''y''], 1, None), ENext ([''z''], 2, None),
                   ESeal (Batch [''x'', ''y''] [1]),
                   ENext ([], 0, Some ErrEofCommitCookie), ESeal (Batch [''z''] [2]),
                   EProcess [''x'', ''y''] None, EEmit 1, EProcess [''z''] None, EEmit 2,
                   ECommit 1 None, ECommit 2 None]"
    using two_batches_run by (auto split: option.splits)
  have m: "(0::int) \<le> 2" by simp
  note t = batch_within_limit_or_single_fetch[OF m s(1)]
  have se: "seals (trace s) = [Batch [''x'', ''y''] [1], Batch [''z''] [2]]"
    by (simp add: s(3) seals_def)
  have h: "\<forall>r \<in> set (takeWhile normal (nexts two_batches)). int (length (fst r)) \<le> 2"
    by (simp add: two_batches_def normal_def)
  from t h have a: "\<forall>b \<in> set (seals (trace s)). int (length (buf b)) \<le> 2" by blast
  from t s(2) have b: "procs (trace s) = map (\<lambda>b. (buf b, None)) (seals (trace s))" by blast
  from t have c: "always_returns two_batches 2" by blast
  show ?thesis using s(1,2) se a b c by simp
qed

section \<open>Sealing a batch\<close>






lemma prefix_concat_map: "prefix xs ys \<Longrightarrow> prefix (concat (map f xs)) (concat (map f ys))"
  by (auto simp: prefix_def)





section \<open>One cookie for each fetch\<close>




section \<open>A fetch that overflows the buffer\<close>






section \<open>A fetch that fills the buffer exactly\<close>






section \<open>A stream that fits one batch\<close>

lemma one_batch_run:
  "(case run two_batches 3 exact_fit_schedule of
      None \<Rightarrow> False
    | Some s \<Rightarrow>
        m_pc s = M_Ret None \<and>
        trace s = [ENext ([''x'', ''y''], 1, None), ENext ([''z''], 2, None),
                   ENext ([], 0, Some ErrEofCommitCookie),
                   ESeal (Batch [''x'', ''y'', ''z''] [1, 2]),
                   EProcess [''x'', ''y'', ''z''] None, EEmit 1, EEmit 2,
                   ECommit 1 None, ECommit 2 None])"
  by code_simp

text \<open>Fetches that fit the capacity limit together seal nothing before end-of-stream.\<close>

lemma fed_fits:
  assumes "int (length (concat (map fst rs))) \<le> m"
  shows "fed m rs = ([], concat (map fst rs), map (\<lambda>r. fst (snd r)) rs)"
  using assms
proof (induction rs rule: rev_induct)
  case Nil
  then show ?case by simp
next
  case (snoc r rs)
  obtain items cookie err where r: "r = (items, cookie, err)" by (cases r)
  from snoc(2) have "int (length (concat (map fst rs))) \<le> m" by simp
  from snoc(1)[OF this] snoc(2) r show ?case by simp
qed

lemma fits_prefix:
  assumes "prefix rs st" "int (length (concat (map fst st))) \<le> m"
  shows "fst (fed m rs) = []"
proof -
  from prefix_concat_map[OF assms(1), of fst] have
    "length (concat (map fst rs)) \<le> length (concat (map fst st))" by (rule prefix_length_le)
  then have "int (length (concat (map fst rs))) \<le> m" using assms(2) by linarith
  from fed_fits[OF this] show ?thesis by simp
qed

lemma all_ok_butlast: "all_ok log \<Longrightarrow> all_ok (butlast log)"
  by (auto simp: all_ok_def list_all_iff dest: in_set_butlastD)

lemma commits_ok_butlast:
  assumes "inv_commit E s"
  shows "all_ok (butlast (commits (trace s)))"
proof (cases "c_pc s")
  case C_Read
  then show ?thesis using assms by (simp add: inv_commit_def all_ok_butlast)
next
  case (C_Got c)
  then show ?thesis using assms by (simp add: inv_commit_def all_ok_butlast)
next
  case (C_After t)
  then show ?thesis using assms
    by (cases "exit_of t") (simp_all add: inv_commit_def all_ok_butlast)
qed

text \<open>
  C1, as the source has it.  Let the producer never fail, and let the items of all
  its fetches before end-of-stream together be at least one and at most \<open>m\<close>.  Then
  on every schedule: at most one batch is sealed, with these items, in the order of
  the fetches, and with the cookies of the fetches, in their order; \<^verbatim>\<open>Process\<close> is
  called at most once, with these items; a cookie is acknowledged only when this
  call has succeeded; the cookies acknowledged are first cookies of the fetches, in
  the order of the fetches, each once, and only the last acknowledgement can have
  failed.  When \<^verbatim>\<open>Pipe\<close> has returned, \<^verbatim>\<open>Process\<close> has been called exactly once, with
  these items; \<^verbatim>\<open>Pipe\<close> has returned nil exactly when this call and all the
  acknowledgements have succeeded, and then every cookie of every fetch is
  acknowledged exactly once, in the order of the fetches; when the call has failed,
  no cookie is acknowledged.  The run can be continued until \<^verbatim>\<open>Pipe\<close> returns, and
  \<^verbatim>\<open>Pipe\<close> returns on every schedule.
\<close>

theorem single_batch_run:
  assumes "0 \<le> m" "run E m sched = Some s"
    "\<forall>r \<in> set (nexts E). normal r \<or> is_eof (snd (snd r))"
    "items = concat (map fst (takeWhile normal (nexts E)))"
    "cks = map (\<lambda>r. fst (snd r)) (takeWhile normal (nexts E))"
    "items \<noteq> []" "int (length items) \<le> m"
  shows "(seals (trace s) = [] \<or> seals (trace s) = [Batch items cks]) \<and>
         (procs (trace s) = [] \<or> procs (trace s) = [(items, process_fn E [] items)]) \<and>
         (commits (trace s) \<noteq> [] \<longrightarrow> procs (trace s) = [(items, None)]) \<and>
         prefix (map fst (commits (trace s))) cks \<and>
         all_ok (butlast (commits (trace s))) \<and>
         (\<forall>r. m_pc s = M_Ret r \<longrightarrow>
            procs (trace s) = [(items, process_fn E [] items)] \<and>
            (r = None \<longleftrightarrow> process_fn E [] items = None \<and> all_ok (commits (trace s))) \<and>
            (r = None \<longrightarrow> commits (trace s) = map (\<lambda>c. (c, None)) cks) \<and>
            (process_fn E [] items \<noteq> None \<longrightarrow> commits (trace s) = [])) \<and>
         (\<exists>sched' s' r. exec E m sched' s = Some s' \<and> m_pc s' = M_Ret r) \<and>
         always_returns E m"
proof -
  from run_inv_all[OF assms(1,2)] have ia: "inv_all E m s" .
  then have i: "inv_fetch E m s" "inv_proc E s" "inv_commit E s" by (simp_all add: inv_all_def)
  let ?st = "takeWhile normal (nexts E)"
  let ?ss = "seals (trace s)" and ?ps = "procs (trace s)" and ?es = "emits (trace s)"
    and ?cs = "commits (trace s)"
  have fits: "int (length (concat (map fst ?st))) \<le> m" using assms(4,7) by simp
  have fin: "final_batches m ?st = [Batch items cks]"
    using fed_fits[OF fits] assms(4,5,6) by (simp add: final_batches_def)
  have 1: "?ss = [] \<or> ?ss = [Batch items cks]"
    using seals_of_stream[OF i(1)] fits_prefix[OF _ fits] fin by auto
  have pm: "map fst ?ps = map buf (take (length ?ps) ?ss)" "length ?ps \<le> length ?ss"
    "calls_ok (process_fn E) ?ps"
    using i(2) by (simp_all add: inv_proc_def)
  have 2: "?ps = [] \<or> ?ps = [(items, process_fn E [] items)]"
  proof (cases "?ps = []")
    case False
    then have ss: "?ss = [Batch items cks]" using 1 pm(2) by auto
    then have l: "length ?ps = 1" using False pm(2) by (cases ?ps) auto
    then obtain x r where xr: "?ps = [(x, r)]" by (cases ?ps) auto
    then have "x = items" using pm(1) ss by simp
    moreover have "r = process_fn E [] items"
      using calls_ok_last[OF pm(3)] xr \<open>x = items\<close> by simp
    ultimately show ?thesis using xr by simp
  qed simp
  from emits_bound[OF i(2)] obtain k where
    k: "k \<le> length ?ps" "all_ok (take k ?ps)" "prefix ?es (concat (map cookies (take k ?ss)))"
    by blast
  have cm: "map fst ?cs = take (length ?cs) ?es" "length ?cs \<le> length ?es"
    using i(3) by (simp_all add: inv_commit_def)
  have 3: "?ps = [(items, None)]" if "?cs \<noteq> []"
  proof -
    from that cm(2) have "?es \<noteq> []" by auto
    then have "k \<noteq> 0" using k(3) by (cases k) auto
    then have "?ps \<noteq> []" using k(1) by auto
    then have p: "?ps = [(items, process_fn E [] items)]" using 2 by simp
    then have "take k ?ps = ?ps" using \<open>k \<noteq> 0\<close> by (cases k) auto
    then have "all_ok ?ps" using k(2) by simp
    then show ?thesis using p by (simp add: all_ok_def)
  qed
  have 4: "prefix (map fst ?cs) cks"
  proof -
    have "prefix (map fst ?cs) ?es" using cm(1) by (metis take_is_prefix)
    moreover have "prefix (concat (map cookies (take k ?ss))) (concat (map cookies ?ss))"
      by (rule prefix_concat_map) (rule take_is_prefix)
    moreover have "prefix (concat (map cookies ?ss)) cks" using 1 by auto
    ultimately show ?thesis using k(3) by (meson prefix_order.trans)
  qed
  note 5 = commits_ok_butlast[OF i(3)]
  have 6: "?ps = [(items, process_fn E [] items)] \<and>
            (r = None \<longleftrightarrow> process_fn E [] items = None \<and> all_ok ?cs) \<and>
            (r = None \<longrightarrow> ?cs = map (\<lambda>c. (c, None)) cks) \<and>
            (process_fn E [] items \<noteq> None \<longrightarrow> ?cs = [])"
    if ret: "m_pc s = M_Ret r" for r
  proof -
    note rr = Run_result[OF assms(1,2) ret]
    have nf: "\<not> (\<exists>e. ended (f_tail (f_pc s)) = Some (Failed e))"
      using fetch_failed_script[OF i(1)] assms(3) by blast
    have a: "?ps = [(items, None)] \<and> ?cs = map (\<lambda>c. (c, None)) cks" if "r = None"
    proof -
      from success_run[OF assms(1,2)] ret that have
        "?ss = final_batches m ?st" "?ps = map (\<lambda>b. (buf b, None)) ?ss"
        "?es = concat (map cookies ?ss)" "?cs = map (\<lambda>c. (c, None)) ?es"
        by simp_all
      then show ?thesis using fin by simp
    qed
    have b: "?ps \<noteq> []" if "r \<noteq> None"
    proof -
      from rr that nf have "(\<exists>e. ended (p_tail (p_pc s)) = Some (Failed e)) \<or>
          (\<exists>e. ended (c_tail (c_pc s)) = Some (Failed e))" by blast
      then show ?thesis
      proof
        assume "\<exists>e. ended (p_tail (p_pc s)) = Some (Failed e)"
        then show ?thesis using proc_failed_call[OF i(2)] by auto
      next
        assume "\<exists>e. ended (c_tail (c_pc s)) = Some (Failed e)"
        then have "?cs \<noteq> []" using commit_failed_call[OF i(3)] by auto
        then show ?thesis using 3 by simp
      qed
    qed
    have p: "?ps = [(items, process_fn E [] items)]" using a b 2 by (cases "r = None") auto
    have c: "r = None" if "process_fn E [] items = None" "all_ok ?cs"
    proof (rule ccontr)
      assume "r \<noteq> None"
      with rr nf have "(\<exists>e. ended (p_tail (p_pc s)) = Some (Failed e)) \<or>
          (\<exists>e. ended (c_tail (c_pc s)) = Some (Failed e))" by blast
      then show False
      proof
        assume "\<exists>e. ended (p_tail (p_pc s)) = Some (Failed e)"
        then obtain xs e' where "(xs, Some e') \<in> set ?ps" using proc_failed_call[OF i(2)] by blast
        then show False using p that(1) by simp
      next
        assume "\<exists>e. ended (c_tail (c_pc s)) = Some (Failed e)"
        then obtain c e' where "(c, Some e') \<in> set ?cs" using commit_failed_call[OF i(3)] by blast
        then show False using all_ok_mem[OF that(2)] by blast
      qed
    qed
    have d: "process_fn E [] items = None \<and> all_ok ?cs" if "r = None"
    proof -
      from a[OF that] p have "process_fn E [] items = None" by simp
      moreover have "all_ok ?cs" using a[OF that] by (simp add: all_ok_def list_all_iff)
      ultimately show ?thesis by simp
    qed
    have e: "?cs = []" if "process_fn E [] items \<noteq> None"
    proof (rule ccontr)
      assume "?cs \<noteq> []"
      from 3[OF this] p that show False by simp
    qed
    show ?thesis using p a c d e by blast
  qed
  show ?thesis
    apply (intro conjI)
    subgoal using 1 .
    subgoal using 2 .
    subgoal using 3 by blast
    subgoal using 4 .
    subgoal using 5 .
    subgoal using 6 by blast
    subgoal using completes[OF assms(1) ia] .
    subgoal using always_returns[OF assms(1)] .
    done
qed

lemma no_items_sequential:
  "Pipe_sequential no_items 5 =
     Some ([ENext ([], 7, None), ENext ([], 8, None), ENext ([], - 1, None)], None)"
  by code_simp

text \<open>
  Without items the statement of the specification fails, in the concurrent pipeline
  and in the sequential one: two fetches without items, no \<^verbatim>\<open>Process\<close> call, no
  acknowledgement, and the result nil.
\<close>

theorem no_item_no_process_call:
  "\<exists>s tr. run no_items 5 no_items_schedule = Some s \<and> m_pc s = M_Ret None \<and>
     fetches (trace s) = [([], 7, None), ([], 8, None), ([], 0, Some ErrEofCommitCookie)] \<and>
     int (length (concat (map fst (nexts no_items)))) \<le> 5 \<and>
     procs (trace s) = [] \<and> commits (trace s) = [] \<and>
     Pipe_sequential no_items 5 = Some (tr, None) \<and> procs tr = [] \<and> commits tr = []"
proof -
  obtain s where s: "run no_items 5 no_items_schedule = Some s" "m_pc s = M_Ret None"
    "trace s = [ENext ([], 7, None), ENext ([], 8, None),
                ENext ([], 0, Some ErrEofCommitCookie)]"
    using no_items_run by (auto split: option.splits)
  have "procs [ENext ([], 7, None), ENext ([], 8, None), ENext ([], - 1, None)] =
      ([] :: (string list \<times> error option) list)"
    "commits [ENext ([], 7, None) :: string event, ENext ([], 8, None), ENext ([], - 1, None)] = []"
    by (simp_all add: procs_def commits_def)
  then show ?thesis using s(1,2) no_items_sequential
    by (simp add: s(3) fetches_def procs_def commits_def no_items_def)
qed

theorem single_batch_run_witness:
  "\<exists>s. run two_batches 3 exact_fit_schedule = Some s \<and> m_pc s = M_Ret None \<and>
     procs (trace s) = [([''x'', ''y'', ''z''], None)] \<and>
     commits (trace s) = [(1, None), (2, None)] \<and>
     always_returns two_batches 3"
proof -
  obtain s where s: "run two_batches 3 exact_fit_schedule = Some s" "m_pc s = M_Ret None"
    using one_batch_run by (auto split: option.splits)
  have m: "(0::int) \<le> 3" by simp
  have h1: "\<forall>r \<in> set (nexts two_batches). normal r \<or> is_eof (snd (snd r))"
    by (simp add: two_batches_def normal_def)
  have h2: "[''x'', ''y'', ''z''] = concat (map fst (takeWhile normal (nexts two_batches)))"
    "[1, 2] = map (\<lambda>r. fst (snd r)) (takeWhile normal (nexts two_batches))"
    by (simp_all add: two_batches_def normal_def)
  have h3: "[''x'', ''y'', ''z''] \<noteq> []" "int (length [''x'', ''y'', ''z'']) \<le> 3" by simp_all
  note t = single_batch_run[OF m s(1) h1 h2 h3]
  from t s(2) have p: "procs (trace s) =
      [([''x'', ''y'', ''z''], process_fn two_batches [] [''x'', ''y'', ''z''])]"
    and c: "commits (trace s) = map (\<lambda>c. (c, None)) [1, 2]"
    by blast+
  from t have a: "always_returns two_batches 3" by blast
  show ?thesis using s p c a by (simp add: two_batches_def)
qed

end
